theory Spec2Isabelle
  imports Main "HOL-Library.Word"
begin

unbundle bit_operations_syntax

section \<open>The buffer pool and the record store of osdb (pages.hpp)\<close>

text \<open>
  The templates of pages.hpp are read at the instance the test suite and the
  specification's scenarios use: \<open>pid_type = uint8_t\<close> and \<open>size_type = size_t\<close>
  (64 bit).  Arithmetic on both wraps around, as \<open>+\<close> and \<open>-\<close> on words do.
\<close>

type_synonym byte = "8 word"
type_synonym pid_type = "8 word"
type_synonym size_type = "64 word"

text \<open>\<open>enum class error { None, Some }\<close>; the constructors carry a prefix, the
  plain names being those of \<open>option\<close>.\<close>

datatype error = ErrNone | ErrSome

subsection \<open>Raw memory\<close>

text \<open>
  A buffer is a list of bytes and an address inside it is an offset from its start.
  \<open>memcpy dst d src s n\<close> is \<open>std::memcpy(dst + d, src + s, n)\<close>.  Where the source
  would leave the buffer its behaviour is undefined; the model then reads what is
  there and drops what does not fit, so that a buffer never changes its length.
\<close>

definition memcpy :: "byte list \<Rightarrow> nat \<Rightarrow> byte list \<Rightarrow> nat \<Rightarrow> nat \<Rightarrow> byte list" where
  "memcpy dst d src s n =
     (let bs = take n (drop s src)
      in take (length dst) (take d dst @ bs @ drop (d + length bs) dst))"

definition memset :: "byte list \<Rightarrow> byte \<Rightarrow> nat \<Rightarrow> byte list" where
  "memset dst c n = take (length dst) (replicate n c @ drop n dst)"

text \<open>The object representation of a \<open>size_type\<close>: eight bytes, least significant
  first (the byte order of the machines the tests run on).\<close>

definition size_bytes :: "size_type \<Rightarrow> byte list" where
  "size_bytes w = map (\<lambda>i. ucast (drop_bit (8 * i) w)) [0..<8]"

fun bytes_size :: "byte list \<Rightarrow> size_type" where
  "bytes_size [] = 0"
| "bytes_size (b # bs) = ucast b OR push_bit 8 (bytes_size bs)"

text \<open>\<open>read_value<size_type>\<close> and \<open>write_value<size_type>\<close> at an offset of a buffer.\<close>

definition read_size :: "byte list \<Rightarrow> nat \<Rightarrow> size_type" where
  "read_size buf off = bytes_size (take 8 (drop off buf))"

definition write_size :: "byte list \<Rightarrow> nat \<Rightarrow> size_type \<Rightarrow> byte list" where
  "write_size buf off v = memcpy buf off (size_bytes v) 0 8"

text \<open>The same for a \<open>pid_type\<close>, a single byte.\<close>

definition read_pid :: "byte list \<Rightarrow> nat \<Rightarrow> pid_type" where
  "read_pid buf off = (case drop off buf of [] \<Rightarrow> 0 | b # _ \<Rightarrow> b)"

subsection \<open>Page footer and handles\<close>

text \<open>\<open>struct page_footer\<close> is packed: \<open>records\<close> at offset 0, \<open>freeSpace\<close> at 8,
  \<open>prev_page\<close> at 16 and \<open>next_page\<close> at 17; \<open>sizeof(page_footer) = 18\<close> and
  \<open>sizeof(size_type) = 8\<close>.\<close>

record page_footer =
  records :: size_type
  freeSpace :: size_type
  prev_page :: pid_type
  next_page :: pid_type

definition sizeof_footer :: nat where
  "sizeof_footer = 18"

definition sizeof_size :: nat where
  "sizeof_size = 8"

definition footer_bytes :: "page_footer \<Rightarrow> byte list" where
  "footer_bytes ft =
     size_bytes (records ft) @ size_bytes (freeSpace ft) @ [prev_page ft, next_page ft]"

definition read_footer :: "byte list \<Rightarrow> nat \<Rightarrow> page_footer" where
  "read_footer buf off =
     \<lparr>records = read_size buf off, freeSpace = read_size buf (off + 8),
      prev_page = read_pid buf (off + 16), next_page = read_pid buf (off + 17)\<rparr>"

definition write_footer :: "byte list \<Rightarrow> nat \<Rightarrow> page_footer \<Rightarrow> byte list" where
  "write_footer buf off ft = memcpy buf off (footer_bytes ft) 0 sizeof_footer"

text \<open>\<open>struct record_index\<close>; its field \<open>size\<close> is \<open>rsize\<close> here.\<close>

record record_index =
  pageid :: pid_type
  slot_index :: size_type
  offset :: size_type
  rsize :: size_type

text \<open>
  \<open>struct pinned_page\<close>.  The pool is kept as the list of its frames, and the pointer
  \<open>&pool[pageSize * k]\<close> a handle holds in \<open>_data\<close> is the frame number \<open>k\<close>.  The
  functions of the record store take the bytes of that frame as their first argument.
\<close>

record pinned_page =
  p_pageID :: pid_type
  p_data :: nat
  p_size :: size_type
  p_dirty :: bool

definition mark_dirty :: "pinned_page \<Rightarrow> pinned_page" where
  "mark_dirty p = p\<lparr>p_dirty := True\<rparr>"

subsection \<open>Reading records of a page\<close>

text \<open>The loop of \<open>get_record\<close>: \<open>i\<close> runs up to \<open>recordIndex\<close>, adding the size
  under \<open>data\<close> to \<open>offset\<close> and moving \<open>data\<close> one slot up.\<close>

function get_record_loop ::
  "byte list \<Rightarrow> size_type \<Rightarrow> size_type \<Rightarrow> size_type \<Rightarrow> nat \<Rightarrow> size_type \<times> nat" where
  "get_record_loop buf recordIndex i off dat =
     (if i < recordIndex
      then get_record_loop buf recordIndex (i + 1) (off + read_size buf dat) (dat + sizeof_size)
      else (off, dat))"
  by pat_completeness auto
termination
proof (relation "measure (\<lambda>(buf, recordIndex, i, off, dat). unat recordIndex - unat i)")
  show "wf (measure (\<lambda>(buf, recordIndex, i, off, dat). unat recordIndex - unat i))"
    by simp
next
  fix buf :: "byte list" and recordIndex i off :: size_type and dat :: nat
  assume "i < recordIndex"
  then have "unat i < unat recordIndex"
    by (simp add: word_less_nat_alt)
  moreover have "unat recordIndex < 2 ^ 64"
    using unsigned_less [of recordIndex] by simp
  ultimately have "unat (i + 1) = Suc (unat i)"
    by (simp add: unat_word_ariths)
  with \<open>unat i < unat recordIndex\<close>
  show "((buf, recordIndex, i + 1, off + read_size buf dat, dat + sizeof_size),
         (buf, recordIndex, i, off, dat))
        \<in> measure (\<lambda>(buf, recordIndex, i, off, dat). unat recordIndex - unat i)"
    by simp
qed

declare get_record_loop.simps [simp del]

definition get_record :: "byte list \<Rightarrow> pinned_page \<Rightarrow> size_type \<Rightarrow> error + record_index" where
  "get_record buf page recordIndex =
     (let footerStart = unat (p_size page) - sizeof_footer;
          pageFooter = read_footer buf footerStart
      in if recordIndex \<ge> records pageFooter then Inl ErrSome
         else
           let dat = footerStart - unat (of_nat sizeof_size * records pageFooter);
               (off, dat') = get_record_loop buf recordIndex 0 0 dat
           in Inr \<lparr>pageid = p_pageID page, slot_index = recordIndex, offset = off,
                    rsize = read_size buf dat'\<rparr>)"

text \<open>
  \<open>read_record\<close> by handle.  The caller's buffer \<open>out\<close> is returned with the copied
  bytes at its start.
\<close>

definition read_record ::
  "byte list \<Rightarrow> pinned_page \<Rightarrow> record_index \<Rightarrow> byte list \<Rightarrow> size_type
     \<Rightarrow> error \<times> byte list" where
  "read_record buf page record out bufferSize =
     (if pageid record \<noteq> p_pageID page then (ErrSome, out)
      else
        let n = min bufferSize (rsize record)
        in (ErrNone, memcpy out 0 buf (unat (offset record)) (unat n)))"

text \<open>The loop of \<open>read_record\<close> by slot number: \<open>sizeStart\<close> moves one slot down
  in each round.\<close>

function read_record_loop ::
  "byte list \<Rightarrow> size_type \<Rightarrow> size_type \<Rightarrow> size_type \<Rightarrow> nat \<Rightarrow> size_type \<times> nat" where
  "read_record_loop buf recordIndex i off sizeStart =
     (if i < recordIndex
      then read_record_loop buf recordIndex (i + 1) (off + read_size buf sizeStart)
             (sizeStart - sizeof_size)
      else (off, sizeStart))"
  by pat_completeness auto
termination
proof (relation "measure (\<lambda>(buf, recordIndex, i, off, dat). unat recordIndex - unat i)")
  show "wf (measure (\<lambda>(buf, recordIndex, i, off, dat). unat recordIndex - unat i))"
    by simp
next
  fix buf :: "byte list" and recordIndex i off :: size_type and sizeStart :: nat
  assume "i < recordIndex"
  then have "unat i < unat recordIndex"
    by (simp add: word_less_nat_alt)
  moreover have "unat recordIndex < 2 ^ 64"
    using unsigned_less [of recordIndex] by simp
  ultimately have "unat (i + 1) = Suc (unat i)"
    by (simp add: unat_word_ariths)
  with \<open>unat i < unat recordIndex\<close>
  show "((buf, recordIndex, i + 1, off + read_size buf sizeStart, sizeStart - sizeof_size),
         (buf, recordIndex, i, off, sizeStart))
        \<in> measure (\<lambda>(buf, recordIndex, i, off, dat). unat recordIndex - unat i)"
    by simp
qed

declare read_record_loop.simps [simp del]

definition read_record_slot ::
  "byte list \<Rightarrow> pinned_page \<Rightarrow> size_type \<Rightarrow> byte list \<Rightarrow> size_type
     \<Rightarrow> (error + record_index) \<times> byte list" where
  "read_record_slot buf page recordIndex out bufferSize =
     (let footerStart = unat (p_size page) - sizeof_footer;
          pageFooter = read_footer buf footerStart
      in if recordIndex \<ge> records pageFooter then (Inl ErrSome, out)
         else
           let (off, sizeStart) =
                 read_record_loop buf recordIndex 0 0 (footerStart - sizeof_size);
               sz = read_size buf sizeStart;
               output = \<lparr>pageid = p_pageID page, slot_index = recordIndex, offset = off,
                          rsize = sz\<rparr>;
               n = min sz bufferSize
           in (Inr output, memcpy out 0 buf (unat off) (unat n)))"

subsection \<open>Writing a record into a page\<close>

text \<open>
  What \<open>new_pinned_page\<close> leaves in the frame of a new page: the frame zeroed, then
  the footer \<open>{0, pageSize - sizeof(footer_t), 0, 0}\<close> at its end.
\<close>

definition initial_footer :: "size_type \<Rightarrow> page_footer" where
  "initial_footer pageSize =
     \<lparr>records = 0, freeSpace = pageSize - of_nat sizeof_footer, prev_page = 0, next_page = 0\<rparr>"

definition init_page :: "size_type \<Rightarrow> byte list \<Rightarrow> byte list" where
  "init_page pageSize buf =
     write_footer (memset buf 0 (unat pageSize)) (unat pageSize - sizeof_footer)
       (initial_footer pageSize)"

text \<open>
  The branch of \<open>add_record\<close> that stores the record in the page at hand (the
  \<open>else\<close> of the free space test): the bytes go to \<open>dataStart\<close>, the size goes just
  below the slot directory, and the footer is written back.  The result is the
  frame and the offset \<open>dataStart - page.data()\<close>.
\<close>

definition store_record ::
  "byte list \<Rightarrow> nat \<Rightarrow> page_footer \<Rightarrow> byte list \<Rightarrow> size_type \<Rightarrow> byte list \<times> page_footer \<times> nat" where
  "store_record buf footerStart pageFooter dat recordSize =
     (let sizeStart = footerStart - unat (of_nat sizeof_size * records pageFooter);
          dataStart = sizeStart - unat (freeSpace pageFooter);
          buf1 = memcpy buf dataStart dat 0 (unat recordSize);
          buf2 = write_size buf1 (sizeStart - sizeof_size) recordSize;
          pageFooter' = pageFooter\<lparr>records := records pageFooter + 1,
            freeSpace := freeSpace pageFooter - (recordSize + of_nat sizeof_size)\<rparr>
      in (write_footer buf2 footerStart pageFooter', pageFooter', dataStart))"

subsection \<open>The page manager\<close>

text \<open>
  \<open>struct directory_entry\<close>.  \<open>poolIndex\<close> is the number of the entry's frame.
  \<open>pinCount\<close> is a \<open>size_t\<close>: \<open>pinCount++\<close> on \<open>SIZE_MAX\<close> gives 0.
\<close>

record directory_entry =
  dirty :: bool
  page :: pid_type
  poolIndex :: nat
  pinCount :: "64 word"

text \<open>
  \<open>struct page_interface\<close>: the four callbacks of the block provider.  Whatever the
  callables capture is a state of type \<open>'p\<close> that each call takes and returns;
  \<open>read_page\<close> also returns the bytes it has put into the buffer.
\<close>

record 'p page_interface =
  read_page :: "pid_type \<Rightarrow> byte list \<Rightarrow> size_type \<Rightarrow> 'p \<Rightarrow> error \<times> byte list \<times> 'p"
  write_page :: "pid_type \<Rightarrow> byte list \<Rightarrow> size_type \<Rightarrow> 'p \<Rightarrow> error \<times> 'p"
  alloc_page :: "size_type \<Rightarrow> 'p \<Rightarrow> (error + pid_type) \<times> 'p"
  free_page :: "pid_type \<Rightarrow> size_type \<Rightarrow> 'p \<Rightarrow> error \<times> 'p"

text \<open>A log of the callbacks invoked, in order: not a member of the class, but
  what the tests count with their callback counters.\<close>

datatype call =
  ReadPage pid_type
| WritePage pid_type "byte list"
| AllocPage size_type
| FreePage pid_type

text \<open>\<open>class page_manager\<close>: its members, the provider's state and the log.\<close>

record 'p page_manager =
  pageSize :: size_type
  pool :: "byte list list"
  directory :: "directory_entry list"
  interface :: "'p page_interface"
  provider :: 'p
  calls :: "call list"

text \<open>
  The constructor.  \<open>new uint8_t[poolSize * pageSize]\<close> is not initialised: \<open>mem\<close>
  gives the byte found at each address of the allocation.
\<close>

definition new_page_manager ::
  "nat \<Rightarrow> size_type \<Rightarrow> 'p page_interface \<Rightarrow> 'p \<Rightarrow> (nat \<Rightarrow> byte) \<Rightarrow> 'p page_manager" where
  "new_page_manager poolSize pgSize intf st mem =
     \<lparr>pageSize = pgSize,
      pool = map (\<lambda>k. map (\<lambda>j. mem (k * unat pgSize + j)) [0..<unat pgSize]) [0..<poolSize],
      directory = map (\<lambda>i. \<lparr>dirty = False, page = 0, poolIndex = i, pinCount = 0\<rparr>) [0..<poolSize],
      interface = intf, provider = st, calls = []\<rparr>"

definition make_page_manager ::
  "nat \<Rightarrow> size_type \<Rightarrow> 'p page_interface \<Rightarrow> 'p \<Rightarrow> (nat \<Rightarrow> byte) \<Rightarrow> error + 'p page_manager" where
  "make_page_manager poolSize pgSize intf st mem =
     (if (of_nat sizeof_footer + of_nat sizeof_size :: size_type) \<ge> pgSize then Inl ErrSome
      else Inr (new_page_manager poolSize pgSize intf st mem))"

definition page_size :: "'p page_manager \<Rightarrow> size_type" where
  "page_size m = pageSize m"

definition page_data_size :: "'p page_manager \<Rightarrow> size_type" where
  "page_data_size m = pageSize m - of_nat sizeof_footer"

text \<open>The bytes of frame \<open>k\<close>, that is \<open>&pool[pageSize * k]\<close> up to the next frame.\<close>

definition frame :: "'p page_manager \<Rightarrow> nat \<Rightarrow> byte list" where
  "frame m k = (if k < length (pool m) then pool m ! k else [])"

definition set_frame :: "'p page_manager \<Rightarrow> nat \<Rightarrow> byte list \<Rightarrow> 'p page_manager" where
  "set_frame m k buf = m\<lparr>pool := (pool m)[k := buf]\<rparr>"

text \<open>The calls of the callbacks, as the manager makes them: on the frame of an
  entry, with \<open>pageSize\<close> as length.\<close>

definition call_write_page :: "'p page_manager \<Rightarrow> directory_entry \<Rightarrow> error \<times> 'p page_manager" where
  "call_write_page m entry =
     (let buf = frame m (poolIndex entry);
          (e, st) = write_page (interface m) (page entry) buf (pageSize m) (provider m)
      in (e, m\<lparr>provider := st, calls := calls m @ [WritePage (page entry) buf]\<rparr>))"

definition call_read_page :: "'p page_manager \<Rightarrow> pid_type \<Rightarrow> nat \<Rightarrow> error \<times> 'p page_manager" where
  "call_read_page m pg k =
     (let (e, buf, st) = read_page (interface m) pg (frame m k) (pageSize m) (provider m)
      in (e, m\<lparr>pool := (pool m)[k := memcpy (frame m k) 0 buf 0 (unat (pageSize m))],
               provider := st, calls := calls m @ [ReadPage pg]\<rparr>))"

definition call_alloc_page :: "'p page_manager \<Rightarrow> (error + pid_type) \<times> 'p page_manager" where
  "call_alloc_page m =
     (let (r, st) = alloc_page (interface m) (pageSize m) (provider m)
      in (r, m\<lparr>provider := st, calls := calls m @ [AllocPage (pageSize m)]\<rparr>))"

text \<open>The scans of the directory stop at the first entry that matches.\<close>

fun first_index :: "('a \<Rightarrow> bool) \<Rightarrow> 'a list \<Rightarrow> nat option" where
  "first_index P [] = None"
| "first_index P (x # xs) = (if P x then Some 0 else map_option Suc (first_index P xs))"

text \<open>\<open>std::rotate(iter, iter + 1, directory.end())\<close> with \<open>iter = begin() + i\<close>.\<close>

definition rotate_to_end :: "nat \<Rightarrow> 'a list \<Rightarrow> 'a list" where
  "rotate_to_end i xs = (if i < length xs then take i xs @ drop (Suc i) xs @ [xs ! i] else xs)"

definition make_dir_entry :: "'p page_manager \<Rightarrow> (error + nat) \<times> 'p page_manager" where
  "make_dir_entry m =
     (case first_index (\<lambda>entry. pinCount entry = 0) (directory m) of
        None \<Rightarrow> (Inl ErrNone, m)
      | Some i \<Rightarrow>
          let entry = directory m ! i
          in if dirty entry
             then (let (e, m1) = call_write_page m entry
                   in if e \<noteq> ErrNone then (Inl e, m1)
                      else (Inr i, m1\<lparr>directory :=
                              (directory m1)[i := entry\<lparr>dirty := False, pinCount := 1\<rparr>]\<rparr>))
             else (Inr i, m\<lparr>directory := (directory m)[i := entry\<lparr>pinCount := 1\<rparr>]\<rparr>))"

definition load_page :: "'p page_manager \<Rightarrow> pid_type \<Rightarrow> (error + nat) \<times> 'p page_manager" where
  "load_page m pg =
     (case make_dir_entry m of
        (Inl e, m1) \<Rightarrow> (Inl e, m1)
      | (Inr i, m1) \<Rightarrow>
          let m2 = m1\<lparr>directory := (directory m1)[i := (directory m1 ! i)\<lparr>page := pg, pinCount := 1\<rparr>]\<rparr>;
              (e, m3) = call_read_page m2 pg (poolIndex (directory m2 ! i))
          in if e = ErrNone
             then (Inr i, m3\<lparr>directory := rotate_to_end i (directory m3)\<rparr>)
             else (Inl e, m3))"

definition pin_page :: "'p page_manager \<Rightarrow> pid_type \<Rightarrow> (error + pinned_page) \<times> 'p page_manager" where
  "pin_page m pg =
     (case first_index (\<lambda>entry. page entry = pg) (directory m) of
        Some i \<Rightarrow>
          let entry = directory m ! i
          in (Inr \<lparr>p_pageID = pg, p_data = poolIndex entry, p_size = pageSize m, p_dirty = False\<rparr>,
              m\<lparr>directory := (directory m)[i := entry\<lparr>pinCount := pinCount entry + 1\<rparr>]\<rparr>)
      | None \<Rightarrow>
          (case load_page m pg of
             (Inl e, m1) \<Rightarrow> (Inl e, m1)
           | (Inr i, m1) \<Rightarrow>
               let poolIdx = poolIndex (directory m1 ! i)
               in (Inr \<lparr>p_pageID = pg, p_data = poolIdx, p_size = pageSize m1, p_dirty = False\<rparr>,
                   m1)))"

definition flush_page :: "'p page_manager \<Rightarrow> pid_type \<Rightarrow> error \<times> 'p page_manager" where
  "flush_page m pg =
     (case first_index (\<lambda>entry. page entry = pg \<and> pinCount entry = 0 \<and> dirty entry)
             (directory m) of
        Some i \<Rightarrow>
          let entry = directory m ! i;
              (e, m1) = call_write_page m entry
          in (e, if e \<noteq> ErrNone
                 then m1\<lparr>directory := (directory m1)[i := entry\<lparr>dirty := False\<rparr>]\<rparr>
                 else m1)
      | None \<Rightarrow> (ErrSome, m))"

text \<open>The loop of \<open>flush_free_pages\<close> over the entries still to visit; it returns
  them as it leaves them.\<close>

fun flush_entries ::
  "'p page_manager \<Rightarrow> directory_entry list \<Rightarrow> error \<times> directory_entry list \<times> 'p page_manager" where
  "flush_entries m [] = (ErrNone, [], m)"
| "flush_entries m (entry # es) =
     (if pinCount entry = 0 \<and> dirty entry
      then (let (e, m1) = call_write_page m entry
            in if e \<noteq> ErrNone then (e, entry # es, m1)
               else (let (e', es', m2) = flush_entries m1 es
                     in (e', entry\<lparr>dirty := False\<rparr> # es', m2)))
      else (let (e', es', m2) = flush_entries m es in (e', entry # es', m2)))"

definition flush_free_pages :: "'p page_manager \<Rightarrow> error \<times> 'p page_manager" where
  "flush_free_pages m =
     (let (e, es, m1) = flush_entries m (directory m) in (e, m1\<lparr>directory := es\<rparr>))"

definition new_pinned_page :: "'p page_manager \<Rightarrow> (error + pinned_page) \<times> 'p page_manager" where
  "new_pinned_page m =
     (case make_dir_entry m of
        (Inl e, m1) \<Rightarrow> (Inl e, m1)
      | (Inr i, m1) \<Rightarrow>
          let poolIdx = poolIndex (directory m1 ! i)
          in (case call_alloc_page m1 of
                (Inl e, m2) \<Rightarrow> (Inl e, m2)
              | (Inr pid, m2) \<Rightarrow>
                  let entry = (directory m2 ! i)\<lparr>page := pid, pinCount := 1, dirty := True\<rparr>;
                      m3 = m2\<lparr>directory := rotate_to_end i ((directory m2)[i := entry])\<rparr>;
                      m4 = set_frame m3 poolIdx (init_page (pageSize m3) (frame m3 poolIdx));
                      pin = \<lparr>p_pageID = pid, p_data = poolIdx, p_size = pageSize m4,
                             p_dirty = False\<rparr>
                  in (Inr (mark_dirty pin), m4)))"

definition unpin_page :: "'p page_manager \<Rightarrow> pid_type \<Rightarrow> bool \<Rightarrow> 'p page_manager" where
  "unpin_page m pg d =
     (case first_index (\<lambda>entry. page entry = pg) (directory m) of
        None \<Rightarrow> m
      | Some i \<Rightarrow>
          let entry = directory m ! i;
              entry1 = (if d then entry\<lparr>dirty := True\<rparr> else entry);
              entry2 = (if pinCount entry1 \<noteq> 0 then entry1\<lparr>pinCount := pinCount entry1 - 1\<rparr>
                        else entry1)
          in m\<lparr>directory := (directory m)[i := entry2]\<rparr>)"

text \<open>The destructor \<open>~pinned_page\<close>: a handle whose id is 0 (a moved-from one, or
  one of page 0) leaves the manager alone.\<close>

definition release :: "'p page_manager \<Rightarrow> pinned_page \<Rightarrow> 'p page_manager" where
  "release m p = (if p_pageID p \<noteq> 0 then unpin_page m (p_pageID p) (p_dirty p) else m)"

subsection \<open>Appending a record\<close>

text \<open>
  The \<open>while (true)\<close> loop of \<open>add_record\<close>, entered with the page pinned.  It need not
  end (a chain of full pages may lead back into itself), so its result is an option
  and \<open>None\<close> stands for a run that never returns.  Handles are released where the
  source destroys them:
  \<^item> in the branch that allocates, \<open>page\<close> is moved to \<open>curPage\<close> first, so
    \<open>page.mark_dirty()\<close> marks the moved-from handle and \<open>curPage\<close> is released at
    the end of the block with the dirty flag it had; the footer goes to
    \<open>footerStart\<close>, which still points into the frame of \<open>curPage\<close>;
  \<^item> in the branch that follows \<open>next_page\<close>, the move assignment swaps, and the
    old handle is released with the temporary after the next page is pinned;
  \<^item> on every \<open>return\<close> the handle at hand is released.
\<close>

partial_function (option) add_record_loop ::
  "'p page_manager \<Rightarrow> pinned_page \<Rightarrow> pid_type \<Rightarrow> byte list \<Rightarrow> size_type
     \<Rightarrow> ((error + record_index) \<times> 'p page_manager) option" where
  "add_record_loop m cur pgid dat recordSize =
     (let footerStart = unat (p_size cur) - sizeof_footer;
          pageFooter = read_footer (frame m (p_data cur)) footerStart
      in if freeSpace pageFooter < recordSize + of_nat sizeof_size
         then
           (if next_page pageFooter = 0
            then
              (case new_pinned_page m of
                 (Inl e, m1) \<Rightarrow> Some (Inl e, release m1 cur)
               | (Inr newPage, m1) \<Rightarrow>
                   let pageFooter' = pageFooter\<lparr>next_page := p_pageID newPage\<rparr>;
                       m2 = set_frame m1 (p_data cur)
                              (write_footer (frame m1 (p_data cur)) footerStart pageFooter');
                       m3 = release m2 cur
                   in add_record_loop m3 newPage (next_page pageFooter') dat recordSize)
            else
              (case pin_page m (next_page pageFooter) of
                 (Inl e, m1) \<Rightarrow> Some (Inl e, release m1 cur)
               | (Inr nextPage, m1) \<Rightarrow>
                   add_record_loop (release m1 cur) nextPage (next_page pageFooter) dat
                     recordSize))
         else
           (let (buf, pageFooter', dataStart) =
                  store_record (frame m (p_data cur)) footerStart pageFooter dat recordSize;
                m1 = set_frame m (p_data cur) buf
            in Some (Inr \<lparr>pageid = pgid, slot_index = records pageFooter' - 1,
                          offset = of_nat dataStart, rsize = recordSize\<rparr>,
                     release m1 (mark_dirty cur))))"

declare add_record_loop.simps [code]

definition add_record ::
  "'p page_manager \<Rightarrow> pid_type \<Rightarrow> byte list \<Rightarrow> size_type
     \<Rightarrow> ((error + record_index) \<times> 'p page_manager) option" where
  "add_record m pgid dat recordSize =
     (if page_data_size m - of_nat sizeof_size < recordSize then Some (Inl ErrSome, m)
      else
        (case pin_page m pgid of
           (Inl e, m1) \<Rightarrow> Some (Inl e, m1)
         | (Inr cur, m1) \<Rightarrow> add_record_loop m1 cur pgid dat recordSize))"

subsection \<open>A block provider to run the manager on\<close>

text \<open>
  The provider of the test suite, with its captured variables as a record: the pages
  written so far, the next id \<open>alloc_page\<close> hands out, and the pages whose writes are
  made to fail.  Reading a page that was never written fails.
\<close>

record disk =
  stored :: "(pid_type \<times> byte list) list"
  next_id :: pid_type
  failing :: "pid_type list"

definition disk_interface :: "disk page_interface" where
  "disk_interface =
     \<lparr>read_page = (\<lambda>pg buf n d.
        case map_of (stored d) pg of
          None \<Rightarrow> (ErrSome, buf, d)
        | Some bs \<Rightarrow> (ErrNone, bs, d)),
      write_page = (\<lambda>pg buf n d.
        if pg \<in> set (failing d) then (ErrSome, d)
        else (ErrNone, d\<lparr>stored := (pg, take (unat n) buf) # stored d\<rparr>)),
      alloc_page = (\<lambda>n d. (Inr (next_id d), d\<lparr>next_id := next_id d + 1\<rparr>)),
      free_page = (\<lambda>pg n d. (ErrNone, d))\<rparr>"

text \<open>A manager over that provider, as \<open>make_page_manager\<close> builds it: pages of 48
  bytes (30 bytes of data before the footer), a pool of zero bytes, nothing stored.\<close>

definition empty_disk :: disk where
  "empty_disk = \<lparr>stored = [], next_id = 1, failing = []\<rparr>"

definition test_manager :: "nat \<Rightarrow> disk \<Rightarrow> disk page_manager" where
  "test_manager poolSize d = new_page_manager poolSize 48 disk_interface d (\<lambda>a. 0)"

text \<open>The run of the test \<open>AddReadTwoRecords\<close> with a record of three bytes followed
  by one of two: the two handles of \<open>add_record\<close>, the manager and the page's handle.\<close>

definition two_records ::
  "(record_index \<times> record_index \<times> disk page_manager \<times> pinned_page) option" where
  "two_records =
     (case new_pinned_page (test_manager 1 empty_disk) of
        (Inl e, m1) \<Rightarrow> None
      | (Inr h, m1) \<Rightarrow>
          (case add_record m1 (p_pageID h) [1, 2, 3] 3 of
             Some (Inr r1, m2) \<Rightarrow>
               (case add_record m2 (p_pageID h) [4, 5] 2 of
                  Some (Inr r2, m3) \<Rightarrow> Some (r1, r2, m3, h)
                | _ \<Rightarrow> None)
           | _ \<Rightarrow> None))"

text \<open>A provider that holds page 9, filled with the byte 9, and pinning that page in
  a fresh manager with two frames.\<close>

definition disk_with_page_9 :: disk where
  "disk_with_page_9 = \<lparr>stored = [(9, replicate 48 9)], next_id = 1, failing = []\<rparr>"

definition pin_missing_page :: "(error + pinned_page) \<times> disk page_manager" where
  "pin_missing_page = pin_page (test_manager 2 disk_with_page_9) 9"

text \<open>The run of the test \<open>PageAllocWriteCallbackTest\<close>: a page is allocated, its
  handle dropped, and the page flushed.\<close>

definition flush_after_alloc :: "disk \<Rightarrow> error \<times> disk page_manager" where
  "flush_after_alloc d =
     (case new_pinned_page (test_manager 3 d) of
        (Inl e, m1) \<Rightarrow> (e, m1)
      | (Inr h, m1) \<Rightarrow> flush_page (release m1 h) (p_pageID h))"

text \<open>
  A provider that holds page 9 as an empty page (zeroes and the initial footer).  In a
  manager with two frames a page is allocated and its handle dropped; then a record of
  five bytes is added to page 9, page 9 is pinned and the record read back through
  its handle into a buffer of five bytes.
\<close>

definition disk_with_empty_page_9 :: disk where
  "disk_with_empty_page_9 =
     \<lparr>stored = [(9, init_page 48 (replicate 48 0))], next_id = 1, failing = []\<rparr>"

definition add_then_read ::
  "(record_index \<times> pinned_page \<times> disk page_manager \<times> error \<times> byte list) option" where
  "add_then_read =
     (case new_pinned_page (test_manager 2 disk_with_empty_page_9) of
        (Inl e, m1) \<Rightarrow> None
      | (Inr h, m1) \<Rightarrow>
          (case add_record (release m1 h) 9 [1, 2, 3, 4, 5] 5 of
             Some (Inr r, m2) \<Rightarrow>
               (case pin_page m2 (pageid r) of
                  (Inl e, m3) \<Rightarrow> None
                | (Inr p, m3) \<Rightarrow>
                    Some (r, p, m3, read_record (frame m3 (p_data p)) p r [7, 7, 7, 7, 7] 5))
           | _ \<Rightarrow> None))"

subsection \<open>Vocabulary of the properties\<close>

text \<open>An entry that \<open>flush_free_pages\<close> writes back, the entry after a successful
  write, and the call the manager makes for it.\<close>

definition flushable :: "directory_entry \<Rightarrow> bool" where
  "flushable entry = (pinCount entry = 0 \<and> dirty entry)"

definition cleaned :: "directory_entry \<Rightarrow> directory_entry" where
  "cleaned entry = (if flushable entry then entry\<lparr>dirty := False\<rparr> else entry)"

definition write_call :: "'p page_manager \<Rightarrow> directory_entry \<Rightarrow> call" where
  "write_call m entry = WritePage (page entry) (frame m (poolIndex entry))"

text \<open>
  What the provider answers when pages are written to it one after the other from
  the state \<open>st\<close> on, and the state it is left in; and the pages of the entries a flush
  writes back, with the bytes of their frames.
\<close>

fun run_writes ::
  "'p page_interface \<Rightarrow> size_type \<Rightarrow> 'p \<Rightarrow> (pid_type \<times> byte list) list \<Rightarrow> error list \<times> 'p" where
  "run_writes intf n st [] = ([], st)"
| "run_writes intf n st (w # ws) =
     (let (e, st1) = write_page intf (fst w) (snd w) n st;
          (es, st2) = run_writes intf n st1 ws
      in (e # es, st2))"

definition page_writes :: "'p page_manager \<Rightarrow> directory_entry list \<Rightarrow> (pid_type \<times> byte list) list" where
  "page_writes m es = map (\<lambda>entry. (page entry, frame m (poolIndex entry))) (filter flushable es)"

text \<open>A manager with four frames holding four dirty pages, the second of them pinned.\<close>

definition four_dirty_pages :: "disk \<Rightarrow> disk page_manager" where
  "four_dirty_pages d =
     (test_manager 4 d)\<lparr>directory :=
        [\<lparr>dirty = True, page = 1, poolIndex = 0, pinCount = 0\<rparr>,
         \<lparr>dirty = True, page = 2, poolIndex = 1, pinCount = 1\<rparr>,
         \<lparr>dirty = True, page = 3, poolIndex = 2, pinCount = 0\<rparr>,
         \<lparr>dirty = True, page = 4, poolIndex = 3, pinCount = 0\<rparr>]\<rparr>"

text \<open>Entry of frame \<open>k\<close> that holds page 0 and is pinned; such an entry with a pin
  count of at most \<open>c\<close>; and a directory that has such an entry, each entry having a
  frame of its own.\<close>

definition pinned0 :: "nat \<Rightarrow> directory_entry \<Rightarrow> bool" where
  "pinned0 k entry = (poolIndex entry = k \<and> page entry = 0 \<and> pinCount entry \<noteq> 0)"

definition pinned0_upto :: "nat \<Rightarrow> nat \<Rightarrow> directory_entry \<Rightarrow> bool" where
  "pinned0_upto c k entry = (pinned0 k entry \<and> unat (pinCount entry) \<le> c)"

definition stuck :: "nat \<Rightarrow> nat \<Rightarrow> 'p page_manager \<Rightarrow> bool" where
  "stuck k c m =
     (list_ex (pinned0_upto c k) (directory m) \<and> distinct (map poolIndex (directory m)))"

text \<open>
  What a client can do to a manager: the public member functions, the destructor of
  any handle, a write into a frame through \<open>data()\<close>, and \<open>add_record\<close>.  A sequence
  of such steps has no result when one of them does not return.
\<close>

datatype operation =
  PinPage pid_type
| NewPinnedPage
| FlushPage pid_type
| FlushFreePages
| Drop pinned_page
| WriteFrame nat "byte list"
| AddRecord pid_type "byte list" size_type

fun perform :: "'p page_manager \<Rightarrow> operation \<Rightarrow> 'p page_manager option" where
  "perform m (PinPage pg) = Some (snd (pin_page m pg))"
| "perform m NewPinnedPage = Some (snd (new_pinned_page m))"
| "perform m (FlushPage pg) = Some (snd (flush_page m pg))"
| "perform m FlushFreePages = Some (snd (flush_free_pages m))"
| "perform m (Drop h) = Some (release m h)"
| "perform m (WriteFrame k buf) = Some (set_frame m k buf)"
| "perform m (AddRecord pg dat recordSize) = map_option snd (add_record m pg dat recordSize)"

fun perform_all :: "'p page_manager \<Rightarrow> operation list \<Rightarrow> 'p page_manager option" where
  "perform_all m [] = Some m"
| "perform_all m (x # xs) =
     (case perform m x of None \<Rightarrow> None | Some m' \<Rightarrow> perform_all m' xs)"

text \<open>The steps that ask for page 0: only they can add to the pin count of an entry
  that holds page 0.\<close>

fun pins_page_zero :: "operation \<Rightarrow> bool" where
  "pins_page_zero (PinPage pg) = (pg = 0)"
| "pins_page_zero (AddRecord pg dat recordSize) = (pg = 0)"
| "pins_page_zero x = False"

text \<open>A run of a client of the manager, for the examples below.\<close>

definition client_run :: "operation list" where
  "client_run =
     [Drop \<lparr>p_pageID = 0, p_data = 0, p_size = 48, p_dirty = False\<rparr>,
      NewPinnedPage, PinPage 0, AddRecord 1 [1, 2] 2,
      Drop \<lparr>p_pageID = 1, p_data = 1, p_size = 48, p_dirty = True\<rparr>,
      FlushFreePages, PinPage 7]"

text \<open>
  A read that fails, followed by an allocation: page 1 is pinned in a fresh manager
  with two frames while the provider holds no page, so \<open>read_page\<close> fails; then a page
  is allocated, for which the provider hands out the id 1, and its handle is dropped.
\<close>

definition leak_then_alloc :: "(error \<times> pinned_page \<times> disk page_manager) option" where
  "leak_then_alloc =
     (case pin_page (test_manager 2 empty_disk) 1 of
        (Inr h, m1) \<Rightarrow> None
      | (Inl e, m1) \<Rightarrow>
          (case new_pinned_page m1 of
             (Inl e', m2) \<Rightarrow> None
           | (Inr h, m2) \<Rightarrow> Some (e, h, release m2 h)))"

subsection \<open>Vocabulary of the footer invariant\<close>

text \<open>
  The size stored in slot \<open>i\<close> (slot 0 lies just below the footer, each later one
  below the one before), and the sizes of all the slots the footer counts.
\<close>

definition slot_size :: "byte list \<Rightarrow> nat \<Rightarrow> nat \<Rightarrow> size_type" where
  "slot_size buf footerStart i = read_size buf (footerStart - sizeof_size * Suc i)"

definition stored_sizes :: "byte list \<Rightarrow> nat \<Rightarrow> nat list" where
  "stored_sizes buf footerStart =
     map (\<lambda>i. unat (slot_size buf footerStart i))
       [0..<unat (records (read_footer buf footerStart))]"

text \<open>The invariant of a page: free space, footer, slot directory and the sizes
  stored there add up to the page size.\<close>

definition footer_invariant :: "size_type \<Rightarrow> byte list \<Rightarrow> bool" where
  "footer_invariant pgSize buf =
     (let footerStart = unat pgSize - sizeof_footer;
          ft = read_footer buf footerStart
      in length buf = unat pgSize \<and>
         unat (freeSpace ft) + sizeof_footer + sizeof_size * unat (records ft)
           + sum_list (stored_sizes buf footerStart) = unat pgSize)"

text \<open>
  What \<open>add_record\<close> does to the frame of the page it is given when the record goes
  there: its two tests (the record fits into an empty page; this page has room) and
  \<open>store_record\<close>.  And what it does when that page is full and has no successor: the
  footer is written back with \<open>next_page\<close> set.
\<close>

definition add_to_page ::
  "size_type \<Rightarrow> byte list \<Rightarrow> byte list \<Rightarrow> size_type \<Rightarrow> (byte list \<times> nat) option" where
  "add_to_page pgSize buf dat recordSize =
     (let footerStart = unat pgSize - sizeof_footer;
          pageFooter = read_footer buf footerStart
      in if pgSize - of_nat sizeof_footer - of_nat sizeof_size < recordSize then None
         else if freeSpace pageFooter < recordSize + of_nat sizeof_size then None
         else (let (buf', pageFooter', dataStart) =
                     store_record buf footerStart pageFooter dat recordSize
               in Some (buf', dataStart)))"






section \<open>Properties\<close>

subsection \<open>The two walks over the slot directory\<close>

text \<open>
  What the two loops compute.  \<open>read_record\<close> by slot number starts at the slot
  just below the footer and walks down: for slot \<open>i\<close> it returns the sum of the
  sizes in slots \<open>0, \<dots>, i - 1\<close> and the size in slot \<open>i\<close>, slot 0 being the one that
  was written first.  \<open>get_record\<close> starts at the lowest slot and walks up: with \<open>k\<close>
  records it returns the sum of the sizes in slots \<open>k - 1, \<dots>, k - i\<close> and the size
  in slot \<open>k - 1 - i\<close>.  Both refuse exactly the indices from \<open>records\<close> on.
\<close>

lemma unat_succ:
  assumes "(i :: size_type) < idx"
  shows "unat (i + 1) = Suc (unat i)" and "i + 1 \<le> idx"
proof -
  from assms have a: "unat i < unat idx" by (simp add: word_less_nat_alt)
  moreover have "unat idx < 2 ^ 64" using unsigned_less [of idx] by simp
  ultimately show b: "unat (i + 1) = Suc (unat i)" by (simp add: unat_word_ariths)
  with a show "i + 1 \<le> idx" by (simp add: word_le_nat_alt)
qed

lemma sum_list_upt_shift:
  fixes f :: "nat \<Rightarrow> size_type"
  shows "sum_list (map f [0..<Suc m]) = f 0 + sum_list (map (\<lambda>j. f (Suc j)) [0..<m])"
proof -
  have "[0..<Suc m] = 0 # map Suc [0..<m]"
    by (simp add: upt_conv_Cons map_Suc_upt del: upt_Suc)
  then show ?thesis
    by (simp add: comp_def del: upt_Suc)
qed

lemma get_record_loop_sum:
  "i \<le> idx \<Longrightarrow>
   get_record_loop buf idx i off dat =
     (off + sum_list (map (\<lambda>j. read_size buf (dat + sizeof_size * j)) [0..<unat idx - unat i]),
      dat + sizeof_size * (unat idx - unat i))"
proof (induction buf idx i off dat rule: get_record_loop.induct)
  case (1 buf idx i off dat)
  show ?case
  proof (cases "i < idx")
    case False
    with "1.prems" have "i = idx" by simp
    then show ?thesis by (subst get_record_loop.simps) simp
  next
    case True
    note s = unat_succ [OF True]
    from True have lt: "unat i < unat idx" by (simp add: word_less_nat_alt)
    then obtain m where m: "unat idx - unat i = Suc m" "unat idx - Suc (unat i) = m"
      by (metis Suc_diff_Suc)
    have "get_record_loop buf idx i off dat
        = get_record_loop buf idx (i + 1) (off + read_size buf dat) (dat + sizeof_size)"
      using True by (subst get_record_loop.simps) simp
    also have "\<dots> = (off + read_size buf dat
          + sum_list (map (\<lambda>j. read_size buf (dat + sizeof_size + sizeof_size * j)) [0..<m]),
        dat + sizeof_size + sizeof_size * m)"
      using "1.IH" [OF True s(2)] s(1) m by simp
    also have "\<dots> = (off + sum_list (map (\<lambda>j. read_size buf (dat + sizeof_size * j)) [0..<Suc m]),
        dat + sizeof_size * Suc m)"
      by (simp only: sum_list_upt_shift) (simp add: add.assoc)
    finally show ?thesis by (simp only: m)
  qed
qed

lemma read_record_loop_sum:
  "i \<le> idx \<Longrightarrow>
   read_record_loop buf idx i off p =
     (off + sum_list (map (\<lambda>j. read_size buf (p - sizeof_size * j)) [0..<unat idx - unat i]),
      p - sizeof_size * (unat idx - unat i))"
proof (induction buf idx i off p rule: read_record_loop.induct)
  case (1 buf idx i off p)
  show ?case
  proof (cases "i < idx")
    case False
    with "1.prems" have "i = idx" by simp
    then show ?thesis by (subst read_record_loop.simps) simp
  next
    case True
    note s = unat_succ [OF True]
    from True have lt: "unat i < unat idx" by (simp add: word_less_nat_alt)
    then obtain m where m: "unat idx - unat i = Suc m" "unat idx - Suc (unat i) = m"
      by (metis Suc_diff_Suc)
    have "read_record_loop buf idx i off p
        = read_record_loop buf idx (i + 1) (off + read_size buf p) (p - sizeof_size)"
      using True by (subst read_record_loop.simps) simp
    also have "\<dots> = (off + read_size buf p
          + sum_list (map (\<lambda>j. read_size buf (p - sizeof_size - sizeof_size * j)) [0..<m]),
        p - sizeof_size - sizeof_size * m)"
      using "1.IH" [OF True s(2)] s(1) m by simp
    also have "\<dots> = (off + sum_list (map (\<lambda>j. read_size buf (p - sizeof_size * j)) [0..<Suc m]),
        p - sizeof_size * Suc m)"
      by (simp only: sum_list_upt_shift) (simp add: add.assoc)
    finally show ?thesis by (simp only: m)
  qed
qed

lemma slot_size_fun:
  "slot_size buf fs = (\<lambda>j. read_size buf (fs - sizeof_size * Suc j))"
  by (rule ext) (simp add: slot_size_def)

lemma read_record_slot_handle:
  "fst (read_record_slot buf pg i out n) =
     (let fs = unat (p_size pg) - sizeof_footer
      in if records (read_footer buf fs) \<le> i then Inl ErrSome
         else Inr \<lparr>pageid = p_pageID pg, slot_index = i,
                   offset = sum_list (map (slot_size buf fs) [0..<unat i]),
                   rsize = slot_size buf fs (unat i)\<rparr>)"
proof -
  define fs where "fs = unat (p_size pg) - sizeof_footer"
  have "read_record_loop buf i 0 0 (fs - sizeof_size) =
      (sum_list (map (slot_size buf fs) [0..<unat i]), fs - sizeof_size * Suc (unat i))"
    by (simp add: read_record_loop_sum slot_size_fun sizeof_size_def)
  then show ?thesis
    by (simp add: read_record_slot_def Let_def fs_def [symmetric] slot_size_fun sizeof_size_def)
qed

lemma get_record_handle:
  assumes "sizeof_size * unat (records (read_footer buf (unat (p_size pg) - sizeof_footer)))
      \<le> unat (p_size pg) - sizeof_footer"
  shows "get_record buf pg i =
     (let fs = unat (p_size pg) - sizeof_footer;
          k = unat (records (read_footer buf fs))
      in if records (read_footer buf fs) \<le> i then Inl ErrSome
         else Inr \<lparr>pageid = p_pageID pg, slot_index = i,
                   offset = sum_list (map (\<lambda>j. slot_size buf fs (k - 1 - j)) [0..<unat i]),
                   rsize = slot_size buf fs (k - 1 - unat i)\<rparr>)"
proof (cases "records (read_footer buf (unat (p_size pg) - sizeof_footer)) \<le> i")
  case True
  then show ?thesis by (simp add: get_record_def Let_def)
next
  case False
  define fs where "fs = unat (p_size pg) - sizeof_footer"
  define k where "k = unat (records (read_footer buf fs))"
  from False have ik: "unat i < k"
    by (simp add: word_le_nat_alt k_def fs_def)
  from assms have k8: "8 * k \<le> fs"
    by (simp add: k_def fs_def sizeof_size_def)
  have "unat (p_size pg) < 2 ^ 64"
    using unsigned_less [of "p_size pg"] by simp
  then have "fs < 2 ^ 64"
    by (simp add: fs_def)
  with k8 have dat: "unat (of_nat sizeof_size * records (read_footer buf fs)) = 8 * k"
    by (simp add: sizeof_size_def unat_word_ariths k_def)
  have pos: "fs - 8 * k + sizeof_size * j = fs - sizeof_size * Suc (k - 1 - j)" if "j < k" for j
    using that k8 by (simp add: sizeof_size_def)
  have eq: "map (\<lambda>j. read_size buf (fs - 8 * k + sizeof_size * j)) [0..<unat i]
      = map (\<lambda>j. slot_size buf fs (k - 1 - j)) [0..<unat i]"
    using ik by (intro map_cong) (simp_all add: pos slot_size_def del: mult_Suc_right)
  have "get_record_loop buf i 0 0 (fs - 8 * k) =
      (sum_list (map (\<lambda>j. read_size buf (fs - 8 * k + sizeof_size * j)) [0..<unat i]),
       fs - 8 * k + sizeof_size * unat i)"
    by (simp add: get_record_loop_sum)
  then have lp: "get_record_loop buf i 0 0 (fs - 8 * k) =
      (sum_list (map (\<lambda>j. slot_size buf fs (k - 1 - j)) [0..<unat i]),
       fs - sizeof_size * Suc (k - 1 - unat i))"
    by (simp only: eq pos [OF ik])
  from False show ?thesis
    by (simp add: get_record_def Let_def fs_def [symmetric] dat k_def [symmetric] lp
        slot_size_def del: mult_Suc_right)
qed

lemma get_record_error_iff:
  "isl (get_record buf pg i) \<longleftrightarrow>
     records (read_footer buf (unat (p_size pg) - sizeof_footer)) \<le> i"
  by (simp add: get_record_def Let_def split: prod.splits)

lemma read_record_slot_error_iff:
  "isl (fst (read_record_slot buf pg i out n)) \<longleftrightarrow> isl (get_record buf pg i)"
  by (simp add: get_record_error_iff read_record_slot_handle Let_def)

subsection \<open>Order of the slots\<close>

text \<open>
  C1.  After records of sizes \<open>s\<^sub>0, s\<^sub>1, \<dots>\<close> have been added to a page,
  \<open>get_record(page, i)\<close> is to return the offset \<open>s\<^sub>0 + \<dots> + s\<^sub>i\<^sub>-\<^sub>1\<close> and the size
  \<open>s\<^sub>i\<close>.  The code does not: \<open>add_record\<close> puts each new size below the older ones
  and \<open>get_record\<close> starts at the lowest slot and walks up, so it meets the sizes in
  the reverse of the insertion order.  With a record of three bytes and then one of
  two, \<open>add_record\<close> returns the handles (slot 0, offset 0, size 3) and (slot 1,
  offset 3, size 2), and \<open>get_record\<close> returns (slot 0, offset 0, size 2) and (slot
  1, offset 2, size 3); slot 2 is refused.  \<open>get_record_handle\<close> above gives the
  handle for every page, and \<open>get_record_error_iff\<close> the part that holds: an error
  exactly for \<open>slot_index \<ge> records\<close>.
\<close>

theorem get_record_two_records:
  "(case two_records of
      None \<Rightarrow> False
    | Some (r1, r2, m, h) \<Rightarrow>
        r1 = \<lparr>pageid = 1, slot_index = 0, offset = 0, rsize = 3\<rparr> \<and>
        r2 = \<lparr>pageid = 1, slot_index = 1, offset = 3, rsize = 2\<rparr> \<and>
        get_record (frame m (p_data h)) h 0
          = Inr \<lparr>pageid = 1, slot_index = 0, offset = 0, rsize = 2\<rparr> \<and>
        get_record (frame m (p_data h)) h 1
          = Inr \<lparr>pageid = 1, slot_index = 1, offset = 2, rsize = 3\<rparr> \<and>
        get_record (frame m (p_data h)) h 2 = Inl ErrSome)"
  by code_simp

subsection \<open>Reading by slot number\<close>

text \<open>
  C4.  \<open>read_record(page, slot, buffer, size)\<close> is to return the handle that
  \<open>get_record(page, slot)\<close> returns.  On the page with the two records above it
  returns the handles of \<open>add_record\<close>, (slot 0, offset 0, size 3) and (slot 1,
  offset 3, size 2), and copies the records' bytes; \<open>get_record\<close> returns other
  handles for both slots.  Both refuse slot 2.
\<close>

theorem read_record_slot_two_records:
  "(case two_records of
      None \<Rightarrow> False
    | Some (r1, r2, m, h) \<Rightarrow>
        read_record_slot (frame m (p_data h)) h 0 [0, 0, 0, 0] 4 = (Inr r1, [1, 2, 3, 0]) \<and>
        read_record_slot (frame m (p_data h)) h 1 [0, 0, 0, 0] 4 = (Inr r2, [4, 5, 0, 0]) \<and>
        get_record (frame m (p_data h)) h 0 \<noteq> Inr r1 \<and>
        get_record (frame m (p_data h)) h 1 \<noteq> Inr r2 \<and>
        fst (read_record_slot (frame m (p_data h)) h 2 [0, 0, 0, 0] 4) = Inl ErrSome \<and>
        get_record (frame m (p_data h)) h 2 = Inl ErrSome)"
  by code_simp

subsection \<open>The frame of a page that had to be loaded\<close>

text \<open>
  C2.  When \<open>pin_page(id)\<close> misses and \<open>read_page\<close> succeeds, the handle is to show the
  frame \<open>read_page\<close> wrote.  \<open>load_page\<close> returns the index the entry had before it was
  rotated to the end, and \<open>pin_page\<close> looks that index up afterwards, where another
  entry now stands.  In a fresh manager with two frames, page 9 is read into frame 0
  (the directory entry of page 9 has \<open>poolIndex = 0\<close>), and the handle points to
  frame 1, whose bytes nobody wrote.  (\<open>new_pinned_page\<close> takes \<open>poolIndex\<close> before it
  rotates.)  \<open>pin_page_miss_handle\<close> below has the same for every manager in which the
  reserved entry is not the last one.
\<close>

theorem pin_page_miss_frame:
  "(case pin_missing_page of
      (Inl e, m) \<Rightarrow> False
    | (Inr h, m) \<Rightarrow>
        h = \<lparr>p_pageID = 9, p_data = 1, p_size = 48, p_dirty = False\<rparr> \<and>
        directory m =
          [\<lparr>dirty = False, page = 0, poolIndex = 1, pinCount = 0\<rparr>,
           \<lparr>dirty = False, page = 9, poolIndex = 0, pinCount = 1\<rparr>] \<and>
        calls m = [ReadPage 9] \<and>
        frame m 0 = replicate 48 9 \<and>
        frame m (p_data h) = replicate 48 0)"
  by code_simp

subsection \<open>Flushing one page\<close>

text \<open>
  C3.  \<open>flush_page\<close> is to clear the dirty bit of the entry if and only if
  \<open>write_page\<close> succeeds.  The code tests \<open>e != error::None\<close> before it clears the
  bit: after a write that succeeds the entry is still dirty, and after a write that
  fails it is clean.  (\<open>flush_free_pages\<close> and \<open>make_dir_entry\<close> clear the bit when
  the write succeeds.)  With no unpinned dirty entry for the page, \<open>flush_page\<close>
  returns an error and calls nothing.  \<open>flush_page_dirty_after\<close> and
  \<open>flush_page_no_entry\<close> below say both for every manager.
\<close>

theorem flush_page_dirty_bit:
  "(case flush_after_alloc empty_disk of
      (e, m) \<Rightarrow>
        e = ErrNone \<and>
        directory m =
          [\<lparr>dirty = False, page = 0, poolIndex = 1, pinCount = 0\<rparr>,
           \<lparr>dirty = False, page = 0, poolIndex = 2, pinCount = 0\<rparr>,
           \<lparr>dirty = True, page = 1, poolIndex = 0, pinCount = 0\<rparr>] \<and>
        calls m = [AllocPage 48, WritePage 1 (init_page 48 (replicate 48 0))]) \<and>
   (case flush_after_alloc (empty_disk\<lparr>failing := [1]\<rparr>) of
      (e, m) \<Rightarrow>
        e = ErrSome \<and>
        directory m =
          [\<lparr>dirty = False, page = 0, poolIndex = 1, pinCount = 0\<rparr>,
           \<lparr>dirty = False, page = 0, poolIndex = 2, pinCount = 0\<rparr>,
           \<lparr>dirty = False, page = 1, poolIndex = 0, pinCount = 0\<rparr>] \<and>
        calls m = [AllocPage 48, WritePage 1 (init_page 48 (replicate 48 0))]) \<and>
   (case flush_page (test_manager 1 empty_disk) 1 of
      (e, m) \<Rightarrow> e = ErrSome \<and> calls m = [])"
  by code_simp

subsection \<open>Adding a record and reading it back\<close>

text \<open>
  C5.  A record added with \<open>add_record\<close> is to be read back through the handle
  returned.  When the page is not in the pool, \<open>add_record\<close> works on the handle of
  C2, which points to the frame of another page: here the five bytes go to frame 0,
  the frame of page 1, the handle returned names page 9, and reading the record
  from page 9 gives five zero bytes.  (For a page that is in the pool the record is
  read back as written: \<open>round_trip_resident\<close> at the end.)
\<close>

theorem add_record_read_record_miss:
  "(case add_then_read of
      None \<Rightarrow> False
    | Some (r, p, m, res) \<Rightarrow>
        r = \<lparr>pageid = 9, slot_index = 0, offset = 0, rsize = 5\<rparr> \<and>
        p = \<lparr>p_pageID = 9, p_data = 1, p_size = 48, p_dirty = False\<rparr> \<and>
        res = (ErrNone, [0, 0, 0, 0, 0]) \<and>
        take 5 (frame m 0) = [1, 2, 3, 4, 5] \<and>
        map page (directory m) = [1, 9] \<and>
        map poolIndex (directory m) = [0, 1])"
  by code_simp

subsection \<open>Records too large for a page\<close>

text \<open>
  C6.  In a manager that \<open>make_page_manager\<close> accepts (its page size is above
  \<open>sizeof(footer) + sizeof(size_type)\<close>), \<open>add_record\<close> with a record size \<open>s\<close> such
  that \<open>s + sizeof(size_type) > page_data_size()\<close> returns an error and the manager
  it leaves is the one it was given: pool, directory, provider and the log of calls
  are the same, so no page was pinned or written and no callback ran.  The sum is
  that of the numbers, so sizes near \<open>2^64\<close> are covered.
\<close>

theorem add_record_oversize:
  assumes valid: "(of_nat sizeof_footer + of_nat sizeof_size :: size_type) < pageSize m"
    and big: "unat (page_data_size m) < unat recordSize + sizeof_size"
  shows "add_record m pgid dat recordSize = Some (Inl ErrSome, m)"
proof -
  have large: "26 < unat (pageSize m)"
    using valid by (simp add: word_less_nat_alt sizeof_footer_def sizeof_size_def)
  then have a: "unat (page_data_size m) = unat (pageSize m) - 18"
    by (simp add: page_data_size_def sizeof_footer_def unat_sub word_le_nat_alt)
  with large have "unat (page_data_size m - of_nat sizeof_size) = unat (pageSize m) - 26"
    by (simp add: sizeof_size_def unat_sub word_le_nat_alt)
  with a big large have "page_data_size m - of_nat sizeof_size < recordSize"
    by (simp add: word_less_nat_alt sizeof_size_def)
  then show ?thesis
    by (simp add: add_record_def)
qed

text \<open>The scenario of the test \<open>AddLargeRecord\<close>: pages of \<open>18 + 8 + 4\<close> bytes and a
  record of five.\<close>

theorem add_record_oversize_witness:
  "(of_nat sizeof_footer + of_nat sizeof_size :: size_type)
     < pageSize (new_page_manager 1 30 disk_interface empty_disk (\<lambda>a. 0))
   \<and> unat (page_data_size (new_page_manager 1 30 disk_interface empty_disk (\<lambda>a. 0)))
       < unat (5 :: size_type) + sizeof_size
   \<and> add_record (new_page_manager 1 30 disk_interface empty_disk (\<lambda>a. 0)) 1 [1, 2, 3, 4, 5] 5
       = Some (Inl ErrSome, new_page_manager 1 30 disk_interface empty_disk (\<lambda>a. 0))"
proof -
  have v: "(of_nat sizeof_footer + of_nat sizeof_size :: size_type)
             < pageSize (new_page_manager 1 30 disk_interface empty_disk (\<lambda>a. 0))"
    by (simp add: new_page_manager_def sizeof_footer_def sizeof_size_def)
  have b: "unat (page_data_size (new_page_manager 1 30 disk_interface empty_disk (\<lambda>a. 0)))
             < unat (5 :: size_type) + sizeof_size"
    by (simp add: new_page_manager_def page_data_size_def sizeof_footer_def sizeof_size_def)
  show ?thesis
    using v b add_record_oversize [OF v b, of 1 "[1, 2, 3, 4, 5]"] by simp
qed

subsection \<open>Flushing the free pages\<close>

lemma call_write_page_frame:
  assumes "call_write_page m x = (e, m')"
  shows "pool m' = pool m" "directory m' = directory m" "pageSize m' = pageSize m"
    "interface m' = interface m" "calls m' = calls m @ [write_call m x]"
  using assms by (auto simp: call_write_page_def write_call_def Let_def split: prod.splits)

lemma write_call_cong: "pool m' = pool m \<Longrightarrow> write_call m' = write_call m"
  by (rule ext) (simp add: write_call_def frame_def)

lemma flush_entries_frame:
  "flush_entries m es = (e, es', m') \<Longrightarrow>
     pool m' = pool m \<and> directory m' = directory m \<and> pageSize m' = pageSize m \<and>
     interface m' = interface m"
proof (induction es arbitrary: m e es' m')
  case Nil
  then show ?case by simp
next
  case (Cons x es)
  show ?case
  proof (cases "flushable x")
    case False
    with Cons.prems obtain e1 es1 m1 where r: "flush_entries m es = (e1, es1, m1)" and "m' = m1"
      by (auto simp: flushable_def split: prod.splits)
    with Cons.IH [OF r] show ?thesis by simp
  next
    case True
    obtain e0 m0 where w: "call_write_page m x = (e0, m0)" by (cases "call_write_page m x")
    note fr = call_write_page_frame [OF w]
    show ?thesis
    proof (cases "e0 = ErrNone")
      case False
      with True w Cons.prems have "m' = m0" by (auto simp: flushable_def)
      with fr show ?thesis by simp
    next
      case e0: True
      with True w Cons.prems obtain e1 es1 where r: "flush_entries m0 es = (e1, es1, m')"
        by (auto simp: flushable_def split: prod.splits)
      from Cons.IH [OF r] fr show ?thesis by simp
    qed
  qed
qed

lemma flush_entries_ok:
  "flush_entries m es = (ErrNone, es', m') \<Longrightarrow>
     es' = map cleaned es \<and> calls m' = calls m @ map (write_call m) (filter flushable es)"
proof (induction es arbitrary: m es' m')
  case Nil
  then show ?case by simp
next
  case (Cons x es)
  show ?case
  proof (cases "flushable x")
    case False
    with Cons.prems obtain es1 where r: "flush_entries m es = (ErrNone, es1, m')" and "es' = x # es1"
      by (auto simp: flushable_def split: prod.splits)
    with Cons.IH [OF r] False show ?thesis by (simp add: cleaned_def)
  next
    case True
    obtain e0 m0 where w: "call_write_page m x = (e0, m0)" by (cases "call_write_page m x")
    note fr = call_write_page_frame [OF w]
    from True w Cons.prems have e0: "e0 = ErrNone"
      by (auto simp: flushable_def split: prod.splits if_splits)
    with True w Cons.prems obtain es1 where r: "flush_entries m0 es = (ErrNone, es1, m')"
      and es': "es' = x\<lparr>dirty := False\<rparr> # es1"
      by (auto simp: flushable_def split: prod.splits)
    from Cons.IH [OF r] fr es' True show ?thesis
      by (simp add: cleaned_def write_call_cong [of m0 m])
  qed
qed

lemma flush_entries_error:
  "flush_entries m es = (e, es', m') \<Longrightarrow> e \<noteq> ErrNone \<Longrightarrow>
     \<exists>pre x post m0. es = pre @ x # post \<and> flushable x \<and>
       flush_entries m pre = (ErrNone, map cleaned pre, m0) \<and>
       call_write_page m0 x = (e, m') \<and>
       es' = map cleaned pre @ x # post \<and>
       calls m' = calls m @ map (write_call m) (filter flushable pre) @ [write_call m x]"
proof (induction es arbitrary: m es' m')
  case Nil
  then show ?case by simp
next
  case (Cons y es)
  show ?case
  proof (cases "flushable y")
    case False
    with Cons.prems obtain es1 where r: "flush_entries m es = (e, es1, m')" and es': "es' = y # es1"
      by (auto simp: flushable_def split: prod.splits)
    from Cons.IH [OF r Cons.prems(2)] obtain pre x post m0 where
      h: "es = pre @ x # post" "flushable x" "flush_entries m pre = (ErrNone, map cleaned pre, m0)"
        "call_write_page m0 x = (e, m')" "es1 = map cleaned pre @ x # post"
        "calls m' = calls m @ map (write_call m) (filter flushable pre) @ [write_call m x]"
      by blast
    from False h(3) have "flush_entries m (y # pre) = (ErrNone, map cleaned (y # pre), m0)"
      by (auto simp: flushable_def cleaned_def)
    moreover from h(1) have "y # es = (y # pre) @ x # post" by simp
    moreover from es' h(5) False have "es' = map cleaned (y # pre) @ x # post"
      by (simp add: cleaned_def)
    moreover from h(6) False
    have "calls m' = calls m @ map (write_call m) (filter flushable (y # pre)) @ [write_call m x]"
      by simp
    ultimately show ?thesis using h(2) h(4) by blast
  next
    case True
    obtain e0 m1 where w: "call_write_page m y = (e0, m1)" by (cases "call_write_page m y")
    note fr = call_write_page_frame [OF w]
    show ?thesis
    proof (cases "e0 = ErrNone")
      case False
      with True w Cons.prems have "e = e0" "m' = m1" "es' = y # es"
        by (auto simp: flushable_def)
      with w fr True have "y # es = [] @ y # es \<and> flushable y \<and>
          flush_entries m [] = (ErrNone, map cleaned [], m) \<and> call_write_page m y = (e, m') \<and>
          es' = map cleaned [] @ y # es \<and>
          calls m' = calls m @ map (write_call m) (filter flushable []) @ [write_call m y]"
        by simp
      then show ?thesis by blast
    next
      case e0: True
      with True w Cons.prems obtain es1 where r: "flush_entries m1 es = (e, es1, m')"
        and es': "es' = y\<lparr>dirty := False\<rparr> # es1"
        by (auto simp: flushable_def split: prod.splits)
      from Cons.IH [OF r Cons.prems(2)] obtain pre x post m0 where
        h: "es = pre @ x # post" "flushable x" "flush_entries m1 pre = (ErrNone, map cleaned pre, m0)"
          "call_write_page m0 x = (e, m')" "es1 = map cleaned pre @ x # post"
          "calls m' = calls m1 @ map (write_call m1) (filter flushable pre) @ [write_call m1 x]"
        by blast
      from True w e0 h(3) have "flush_entries m (y # pre) = (ErrNone, map cleaned (y # pre), m0)"
        by (auto simp: flushable_def cleaned_def)
      moreover from h(1) have "y # es = (y # pre) @ x # post" by simp
      moreover from es' h(5) True have "es' = map cleaned (y # pre) @ x # post"
        by (simp add: cleaned_def)
      moreover from h(6) True fr
      have "calls m' = calls m @ map (write_call m) (filter flushable (y # pre)) @ [write_call m x]"
        by (simp add: write_call_cong [of m1 m])
      ultimately show ?thesis using h(2) h(4) by blast
    qed
  qed
qed

lemma call_write_page_answer:
  assumes "call_write_page m x = (e, m')"
  shows "write_page (interface m) (page x) (frame m (poolIndex x)) (pageSize m) (provider m)
    = (e, provider m')"
  using assms by (auto simp: call_write_page_def Let_def split: prod.splits)

lemma page_writes_cong:
  "pool m' = pool m \<Longrightarrow> page_writes m' es = page_writes m es"
  by (simp add: page_writes_def frame_def)

lemma run_writes_append:
  "run_writes intf n st (ws @ ws') =
     (let (es, st1) = run_writes intf n st ws;
          (es', st2) = run_writes intf n st1 ws'
      in (es @ es', st2))"
  by (induction ws arbitrary: st) (simp_all add: Let_def split: prod.splits)

lemma flush_entries_answers:
  "flush_entries m es = (ErrNone, es', m') \<Longrightarrow>
     run_writes (interface m) (pageSize m) (provider m) (page_writes m es)
       = (replicate (length (filter flushable es)) ErrNone, provider m')"
proof (induction es arbitrary: m es' m')
  case Nil
  then show ?case by (simp add: page_writes_def)
next
  case (Cons x es)
  show ?case
  proof (cases "flushable x")
    case False
    with Cons.prems obtain es1 where r: "flush_entries m es = (ErrNone, es1, m')"
      by (auto simp: flushable_def split: prod.splits)
    from Cons.IH [OF r] False show ?thesis by (simp add: page_writes_def)
  next
    case True
    obtain e0 m0 where w: "call_write_page m x = (e0, m0)" by (cases "call_write_page m x")
    note fr = call_write_page_frame [OF w]
    from True w Cons.prems have e0: "e0 = ErrNone"
      by (auto simp: flushable_def split: prod.splits if_splits)
    with True w Cons.prems obtain es1 where r: "flush_entries m0 es = (ErrNone, es1, m')"
      by (auto simp: flushable_def split: prod.splits)
    have pw: "page_writes m (x # es) = (page x, frame m (poolIndex x)) # page_writes m0 es"
      using True fr by (simp add: page_writes_def frame_def)
    from Cons.IH [OF r] fr call_write_page_answer [OF w] e0 True show ?thesis
      by (simp add: pw)
  qed
qed

text \<open>
  C8.  \<open>flush_free_pages\<close> visits the directory in order and calls \<open>write_page\<close> for
  exactly the entries that are unpinned and dirty.  It returns \<open>None\<close> when the
  provider has answered \<open>None\<close> to the write of every such entry: then each of them
  is clean, the others are as they were, so no unpinned entry is dirty.  It returns
  an error when that is what the provider answered to the write of an unpinned dirty
  entry, after it had answered \<open>None\<close> to the writes before: the entries before that
  one are visited and cleaned as above, the failing entry stays dirty, and the
  entries after it are not visited.  The frames are not touched.
\<close>

theorem flush_free_pages_writes:
  assumes "flush_free_pages m = (e, m')"
  shows "pool m' = pool m \<and>
    (e = ErrNone \<longrightarrow>
       run_writes (interface m) (pageSize m) (provider m) (page_writes m (directory m))
         = (replicate (length (filter flushable (directory m))) ErrNone, provider m') \<and>
       directory m' = map cleaned (directory m) \<and>
       calls m' = calls m @ map (write_call m) (filter flushable (directory m)) \<and>
       (\<forall>entry \<in> set (directory m'). pinCount entry = 0 \<longrightarrow> \<not> dirty entry)) \<and>
    (e \<noteq> ErrNone \<longrightarrow>
       (\<exists>pre x post. directory m = pre @ x # post \<and> flushable x \<and>
          run_writes (interface m) (pageSize m) (provider m) (page_writes m (pre @ [x]))
            = (replicate (length (filter flushable pre)) ErrNone @ [e], provider m') \<and>
          directory m' = map cleaned pre @ x # post \<and>
          calls m' = calls m @ map (write_call m) (filter flushable pre) @ [write_call m x]))"
proof -
  obtain es1 m1 where r: "flush_entries m (directory m) = (e, es1, m1)"
    and m': "m' = m1\<lparr>directory := es1\<rparr>"
    using assms by (auto simp: flush_free_pages_def split: prod.splits)
  have "pool m' = pool m"
    using flush_entries_frame [OF r] m' by simp
  moreover have "e = ErrNone \<longrightarrow>
       run_writes (interface m) (pageSize m) (provider m) (page_writes m (directory m))
         = (replicate (length (filter flushable (directory m))) ErrNone, provider m') \<and>
       directory m' = map cleaned (directory m) \<and>
       calls m' = calls m @ map (write_call m) (filter flushable (directory m)) \<and>
       (\<forall>entry \<in> set (directory m'). pinCount entry = 0 \<longrightarrow> \<not> dirty entry)"
  proof
    assume "e = ErrNone"
    with r have r': "flush_entries m (directory m) = (ErrNone, es1, m1)" by simp
    from flush_entries_ok [OF r'] m'
    have a: "directory m' = map cleaned (directory m)"
      and b: "calls m' = calls m @ map (write_call m) (filter flushable (directory m))"
      by simp_all
    from a have "\<forall>entry \<in> set (directory m'). pinCount entry = 0 \<longrightarrow> \<not> dirty entry"
      by (auto simp: cleaned_def flushable_def)
    moreover from flush_entries_answers [OF r'] m'
    have "run_writes (interface m) (pageSize m) (provider m) (page_writes m (directory m))
         = (replicate (length (filter flushable (directory m))) ErrNone, provider m')"
      by simp
    ultimately show "run_writes (interface m) (pageSize m) (provider m) (page_writes m (directory m))
         = (replicate (length (filter flushable (directory m))) ErrNone, provider m') \<and>
       directory m' = map cleaned (directory m) \<and>
       calls m' = calls m @ map (write_call m) (filter flushable (directory m)) \<and>
       (\<forall>entry \<in> set (directory m'). pinCount entry = 0 \<longrightarrow> \<not> dirty entry)"
      using a b by simp
  qed
  moreover have "e \<noteq> ErrNone \<longrightarrow>
       (\<exists>pre x post. directory m = pre @ x # post \<and> flushable x \<and>
          run_writes (interface m) (pageSize m) (provider m) (page_writes m (pre @ [x]))
            = (replicate (length (filter flushable pre)) ErrNone @ [e], provider m') \<and>
          directory m' = map cleaned pre @ x # post \<and>
          calls m' = calls m @ map (write_call m) (filter flushable pre) @ [write_call m x])"
  proof
    assume "e \<noteq> ErrNone"
    from flush_entries_error [OF r this] obtain pre x post m0 where
      h: "directory m = pre @ x # post" "flushable x"
        "flush_entries m pre = (ErrNone, map cleaned pre, m0)"
        "call_write_page m0 x = (e, m1)" "es1 = map cleaned pre @ x # post"
        "calls m1 = calls m @ map (write_call m) (filter flushable pre) @ [write_call m x]"
      by blast
    note f0 = flush_entries_frame [OF h(3)]
    from f0 have "frame m0 (poolIndex x) = frame m (poolIndex x)"
      by (simp add: frame_def)
    with call_write_page_answer [OF h(4)] f0
    have w: "write_page (interface m) (page x) (frame m (poolIndex x)) (pageSize m) (provider m0)
        = (e, provider m1)"
      by simp
    have "page_writes m (pre @ [x]) = page_writes m pre @ [(page x, frame m (poolIndex x))]"
      using h(2) by (simp add: page_writes_def)
    with flush_entries_answers [OF h(3)] w m'
    have "run_writes (interface m) (pageSize m) (provider m) (page_writes m (pre @ [x]))
        = (replicate (length (filter flushable pre)) ErrNone @ [e], provider m')"
      by (simp add: run_writes_append)
    moreover from h(5) m' have "directory m' = map cleaned pre @ x # post" by simp
    moreover from h(6) m'
    have "calls m' = calls m @ map (write_call m) (filter flushable pre) @ [write_call m x]"
      by simp
    ultimately show "\<exists>pre x post. directory m = pre @ x # post \<and> flushable x \<and>
          run_writes (interface m) (pageSize m) (provider m) (page_writes m (pre @ [x]))
            = (replicate (length (filter flushable pre)) ErrNone @ [e], provider m') \<and>
          directory m' = map cleaned pre @ x # post \<and>
          calls m' = calls m @ map (write_call m) (filter flushable pre) @ [write_call m x]"
      using h(1,2) by blast
  qed
  ultimately show ?thesis by blast
qed

theorem flush_free_pages_writes_witness:
  "fst (flush_free_pages (four_dirty_pages empty_disk)) = ErrNone \<and>
   map dirty (directory (snd (flush_free_pages (four_dirty_pages empty_disk))))
     = [False, True, False, False] \<and>
   calls (snd (flush_free_pages (four_dirty_pages empty_disk)))
     = [WritePage 1 (replicate 48 0), WritePage 3 (replicate 48 0),
        WritePage 4 (replicate 48 0)] \<and>
   fst (run_writes disk_interface 48 empty_disk
         (page_writes (four_dirty_pages empty_disk) (directory (four_dirty_pages empty_disk))))
     = [ErrNone, ErrNone, ErrNone] \<and>
   fst (flush_free_pages (four_dirty_pages (empty_disk\<lparr>failing := [3]\<rparr>))) = ErrSome \<and>
   map dirty (directory (snd (flush_free_pages (four_dirty_pages (empty_disk\<lparr>failing := [3]\<rparr>)))))
     = [False, True, True, True] \<and>
   calls (snd (flush_free_pages (four_dirty_pages (empty_disk\<lparr>failing := [3]\<rparr>))))
     = [WritePage 1 (replicate 48 0), WritePage 3 (replicate 48 0)] \<and>
   pool (snd (flush_free_pages (four_dirty_pages (empty_disk\<lparr>failing := [3]\<rparr>))))
     = replicate 4 (replicate 48 0)"
proof -
  let ?m = "four_dirty_pages empty_disk"
  let ?n = "four_dirty_pages (empty_disk\<lparr>failing := [3]\<rparr>)"
  have e: "fst (flush_free_pages ?m) = ErrNone"
    by code_simp
  have d: "map dirty (map cleaned (directory ?m)) = [False, True, False, False]"
    by (simp add: four_dirty_pages_def cleaned_def flushable_def)
  have c: "calls ?m @ map (write_call ?m) (filter flushable (directory ?m))
      = [WritePage 1 (replicate 48 0), WritePage 3 (replicate 48 0),
         WritePage 4 (replicate 48 0)]"
    by code_simp
  have i: "interface ?m = disk_interface" "pageSize ?m = 48" "provider ?m = empty_disk"
    by (simp_all add: four_dirty_pages_def test_manager_def new_page_manager_def)
  have l: "replicate (length (filter flushable (directory ?m))) ErrNone
      = [ErrNone, ErrNone, ErrNone]"
    by (simp add: four_dirty_pages_def flushable_def)
  have f: "fst (flush_free_pages ?n) = ErrSome"
    by code_simp
  have g: "map dirty (directory (snd (flush_free_pages ?n))) = [False, True, True, True]"
    by code_simp
  have h: "calls (snd (flush_free_pages ?n))
      = [WritePage 1 (replicate 48 0), WritePage 3 (replicate 48 0)]"
    by code_simp
  have p: "pool ?n = replicate 4 (replicate 48 0)"
    by code_simp
  have "flush_free_pages ?m = (fst (flush_free_pages ?m), snd (flush_free_pages ?m))"
    by simp
  note t = flush_free_pages_writes [OF this, THEN conjunct2, THEN conjunct1, rule_format, OF e]
  from t d c
  have 1: "map dirty (directory (snd (flush_free_pages ?m))) = [False, True, False, False] \<and>
     calls (snd (flush_free_pages ?m))
       = [WritePage 1 (replicate 48 0), WritePage 3 (replicate 48 0),
          WritePage 4 (replicate 48 0)]"
    by simp
  from t [THEN conjunct1] have "fst (run_writes (interface ?m) (pageSize ?m) (provider ?m)
        (page_writes ?m (directory ?m)))
      = replicate (length (filter flushable (directory ?m))) ErrNone"
    by simp
  then have 3: "fst (run_writes disk_interface 48 empty_disk (page_writes ?m (directory ?m)))
      = [ErrNone, ErrNone, ErrNone]"
    by (simp only: i l)
  have "flush_free_pages ?n = (fst (flush_free_pages ?n), snd (flush_free_pages ?n))"
    by simp
  from flush_free_pages_writes [OF this] p
  have 2: "pool (snd (flush_free_pages ?n)) = replicate 4 (replicate 48 0)"
    by simp
  from e 1 3 f g h 2 show ?thesis by simp
qed

subsection \<open>Entries that stay pinned\<close>

lemma first_index_Some:
  "first_index P xs = Some i \<Longrightarrow> i < length xs \<and> P (xs ! i) \<and> (\<forall>j<i. \<not> P (xs ! j))"
proof (induction xs arbitrary: i)
  case Nil
  then show ?case by simp
next
  case (Cons x xs)
  show ?case
  proof (cases "P x")
    case True
    with Cons.prems show ?thesis by simp
  next
    case False
    with Cons.prems obtain i' where i': "first_index P xs = Some i'" "i = Suc i'"
      by auto
    from Cons.IH [OF i'(1)] False i'(2) show ?thesis
      by (auto simp: nth_Cons split: nat.splits)
  qed
qed

lemma set_rotate_to_end: "set (rotate_to_end i xs) = set xs"
proof (cases "i < length xs")
  case True
  have "set xs = set (take i xs @ xs ! i # drop (Suc i) xs)"
    using id_take_nth_drop [OF True] by (rule arg_cong)
  also have "\<dots> = set (take i xs @ drop (Suc i) xs @ [xs ! i])"
    by auto
  finally show ?thesis using True by (simp only: rotate_to_end_def if_True)
next
  case False
  then show ?thesis by (simp add: rotate_to_end_def)
qed

lemma distinct_rotate_to_end:
  "distinct (map f (rotate_to_end i xs)) = distinct (map f xs)"
proof (cases "i < length xs")
  case True
  have "distinct (map f xs) = distinct (map f (take i xs @ xs ! i # drop (Suc i) xs))"
    using id_take_nth_drop [OF True] by (rule arg_cong)
  also have "\<dots> = distinct (map f (take i xs @ drop (Suc i) xs @ [xs ! i]))"
    by auto
  finally show ?thesis using True by (simp only: rotate_to_end_def if_True)
next
  case False
  then show ?thesis by (simp add: rotate_to_end_def)
qed

lemma length_rotate_to_end [simp]: "length (rotate_to_end i xs) = length xs"
  by (auto simp: rotate_to_end_def)

lemma map_poolIndex_update:
  "poolIndex e' = poolIndex (xs ! i) \<Longrightarrow> map poolIndex (xs[i := e']) = map poolIndex xs"
  by (cases "i < length xs") (simp_all add: map_update list_update_same_conv list_update_beyond)

lemma list_ex_update:
  assumes "list_ex Q xs" and "i < length xs" and "Q (xs ! i) \<Longrightarrow> Q e'"
  shows "list_ex Q (xs[i := e'])"
proof -
  from assms(1) obtain j where j: "j < length xs" "Q (xs ! j)"
    by (auto simp: list_ex_iff in_set_conv_nth)
  have "Q (xs[i := e'] ! j)"
  proof (cases "j = i")
    case True
    with j assms(2,3) show ?thesis by simp
  next
    case False
    with j show ?thesis by simp
  qed
  moreover from j(1) have "xs[i := e'] ! j \<in> set (xs[i := e'])"
    by simp
  ultimately show ?thesis
    unfolding list_ex_iff by blast
qed

text \<open>An update of one entry that keeps its frame and does not unpin page 0.\<close>

lemma stuck_update:
  assumes "stuck k c m" and "i < length (directory m)"
    and "poolIndex e' = poolIndex (directory m ! i)"
    and "pinned0_upto c k (directory m ! i) \<Longrightarrow> pinned0_upto c k e'"
    and "directory m' = (directory m)[i := e']"
  shows "stuck k c m'"
  using assms by (simp add: stuck_def list_ex_update map_poolIndex_update)

lemma stuck_rotate:
  assumes "stuck k c m" and "directory m' = rotate_to_end i (directory m)"
  shows "stuck k c m'"
  using assms by (simp add: stuck_def list_ex_iff set_rotate_to_end distinct_rotate_to_end)

lemma call_write_page_fields:
  assumes "call_write_page m x = (e, m')"
  shows "pool m' = pool m \<and> directory m' = directory m \<and> pageSize m' = pageSize m \<and>
    interface m' = interface m"
  using assms by (auto simp: call_write_page_def Let_def split: prod.splits)

lemma call_read_page_fields:
  assumes "call_read_page m pg k = (e, m')"
  shows "directory m' = directory m \<and> pageSize m' = pageSize m \<and> interface m' = interface m \<and>
    calls m' = calls m @ [ReadPage pg]"
  using assms by (auto simp: call_read_page_def Let_def split: prod.splits)

lemma call_alloc_page_fields:
  assumes "call_alloc_page m = (r, m')"
  shows "pool m' = pool m \<and> directory m' = directory m \<and> pageSize m' = pageSize m \<and>
    interface m' = interface m"
  using assms by (auto simp: call_alloc_page_def Let_def split: prod.splits)

lemma entry_reserve_clean:
  "\<not> dirty entry \<Longrightarrow> entry\<lparr>dirty := False, pinCount := n\<rparr> = entry\<lparr>pinCount := n\<rparr>"
  by (cases entry) simp

lemma make_dir_entry_Inr:
  assumes "make_dir_entry m = (Inr i, m')"
  shows "i < length (directory m) \<and> pinCount (directory m ! i) = 0 \<and>
    (\<forall>j<i. pinCount (directory m ! j) \<noteq> 0) \<and>
    directory m' = (directory m)[i := (directory m ! i)\<lparr>dirty := False, pinCount := 1\<rparr>] \<and>
    pool m' = pool m \<and> pageSize m' = pageSize m \<and> interface m' = interface m"
proof -
  from assms obtain i' where f: "first_index (\<lambda>entry. pinCount entry = 0) (directory m) = Some i'"
    by (auto simp: make_dir_entry_def split: option.splits)
  note fi = first_index_Some [OF f]
  show ?thesis
  proof (cases "dirty (directory m ! i')")
    case False
    with assms f have "i = i'" "m' = m\<lparr>directory := (directory m)[i' := (directory m ! i')\<lparr>pinCount := 1\<rparr>]\<rparr>"
      by (auto simp: make_dir_entry_def Let_def)
    with fi False show ?thesis
      by (simp add: entry_reserve_clean)
  next
    case True
    obtain e0 m0 where w: "call_write_page m (directory m ! i') = (e0, m0)"
      by (cases "call_write_page m (directory m ! i')")
    with assms f True have "i = i'"
      "m' = m0\<lparr>directory := (directory m0)[i' := (directory m ! i')\<lparr>dirty := False, pinCount := 1\<rparr>]\<rparr>"
      by (auto simp: make_dir_entry_def Let_def split: if_splits)
    with fi call_write_page_fields [OF w] show ?thesis
      by simp
  qed
qed

lemma make_dir_entry_Inl:
  assumes "make_dir_entry m = (Inl e, m')"
  shows "directory m' = directory m \<and> pool m' = pool m \<and> pageSize m' = pageSize m \<and>
    interface m' = interface m"
proof (cases "first_index (\<lambda>entry. pinCount entry = 0) (directory m)")
  case None
  with assms show ?thesis by (simp add: make_dir_entry_def)
next
  case (Some i')
  show ?thesis
  proof (cases "dirty (directory m ! i')")
    case False
    with assms Some show ?thesis by (simp add: make_dir_entry_def Let_def)
  next
    case True
    obtain e0 m0 where w: "call_write_page m (directory m ! i') = (e0, m0)"
      by (cases "call_write_page m (directory m ! i')")
    with assms Some True have "m' = m0"
      by (auto simp: make_dir_entry_def Let_def split: if_splits)
    with call_write_page_fields [OF w] show ?thesis by simp
  qed
qed

lemma stuck_make_dir_entry:
  assumes "stuck k c m" and "make_dir_entry m = (r, m')"
  shows "stuck k c m'"
proof (cases r)
  case (Inl e)
  with assms(2) make_dir_entry_Inl [of m e m'] assms(1) show ?thesis
    by (simp add: stuck_def)
next
  case (Inr i)
  with assms(2) have h: "make_dir_entry m = (Inr i, m')" by simp
  note f = make_dir_entry_Inr [OF h]
  show ?thesis
  proof (rule stuck_update [OF assms(1)])
    show "i < length (directory m)" using f by simp
    show "directory m' = (directory m)[i := (directory m ! i)\<lparr>dirty := False, pinCount := 1\<rparr>]"
      using f by simp
    show "poolIndex ((directory m ! i)\<lparr>dirty := False, pinCount := 1\<rparr>) = poolIndex (directory m ! i)"
      by simp
    show "pinned0_upto c k (directory m ! i) \<Longrightarrow> pinned0_upto c k ((directory m ! i)\<lparr>dirty := False, pinCount := 1\<rparr>)"
      using f by (simp add: pinned0_upto_def pinned0_def)
  qed
qed

lemma stuck_load_page:
  assumes "stuck k c m" and "load_page m pg = (r, m')"
  shows "stuck k c m'"
proof (cases "make_dir_entry m")
  case (Pair r1 m1)
  show ?thesis
  proof (cases r1)
    case (Inl e)
    with Pair assms(2) have "m' = m1" by (simp add: load_page_def)
    with stuck_make_dir_entry [OF assms(1) Pair] show ?thesis by simp
  next
    case (Inr i)
    with Pair have h: "make_dir_entry m = (Inr i, m1)" by simp
    note f = make_dir_entry_Inr [OF h]
    define m2 where "m2 = m1\<lparr>directory := (directory m1)[i := (directory m1 ! i)\<lparr>page := pg, pinCount := 1\<rparr>]\<rparr>"
    obtain e m3 where rd: "call_read_page m2 pg (poolIndex (directory m2 ! i)) = (e, m3)"
      by (cases "call_read_page m2 pg (poolIndex (directory m2 ! i))")
    have d2: "directory m2 = (directory m)[i := (directory m ! i)\<lparr>dirty := False, pinCount := 1, page := pg, pinCount := 1\<rparr>]"
      using f by (simp add: m2_def)
    have s2: "stuck k c m2"
    proof (rule stuck_update [OF assms(1) _ _ _ d2])
      show "i < length (directory m)" using f by simp
      show "poolIndex ((directory m ! i)\<lparr>dirty := False, pinCount := 1, page := pg, pinCount := 1\<rparr>)
          = poolIndex (directory m ! i)" by simp
      show "pinned0_upto c k (directory m ! i) \<Longrightarrow>
          pinned0_upto c k ((directory m ! i)\<lparr>dirty := False, pinCount := 1, page := pg, pinCount := 1\<rparr>)"
        using f by (simp add: pinned0_upto_def pinned0_def)
    qed
    have s3: "stuck k c m3"
      using s2 call_read_page_fields [OF rd] by (simp add: stuck_def)
    show ?thesis
    proof (cases "e = ErrNone")
      case True
      with assms(2) h rd have "m' = m3\<lparr>directory := rotate_to_end i (directory m3)\<rparr>"
        by (simp add: load_page_def m2_def Let_def)
      then have "directory m' = rotate_to_end i (directory m3)" by simp
      from stuck_rotate [OF s3 this] show ?thesis .
    next
      case False
      with assms(2) h rd have "m' = m3"
        by (simp add: load_page_def m2_def Let_def)
      with s3 show ?thesis by simp
    qed
  qed
qed

lemma stuck_mono: "stuck k c m \<Longrightarrow> c \<le> c' \<Longrightarrow> stuck k c' m"
  by (auto simp: stuck_def list_ex_iff pinned0_upto_def)

lemma unat_add_one:
  "unat (w :: 64 word) + 1 < 2 ^ 64 \<Longrightarrow> unat (w + 1) = Suc (unat w)"
  by (simp add: unat_word_ariths)

text \<open>A pin of another page does not touch the entry; a pin of page 0 may add one to
  its count, which does not wrap as long as the count is below \<open>2^64 - 1\<close>.\<close>

lemma stuck_pin_page_other:
  assumes "stuck k c m" and "pin_page m pg = (r, m')" and "pg \<noteq> 0"
  shows "stuck k c m'"
proof (cases "first_index (\<lambda>entry. page entry = pg) (directory m)")
  case None
  obtain r1 m1 where l: "load_page m pg = (r1, m1)" by (cases "load_page m pg")
  with None assms(2) have "m' = m1"
    by (cases r1) (simp_all add: pin_page_def Let_def)
  with stuck_load_page [OF assms(1) l] show ?thesis by simp
next
  case (Some i)
  note fi = first_index_Some [OF Some]
  from Some assms(2)
  have d: "directory m' = (directory m)[i := (directory m ! i)\<lparr>pinCount := pinCount (directory m ! i) + 1\<rparr>]"
    by (auto simp: pin_page_def Let_def)
  show ?thesis
  proof (rule stuck_update [OF assms(1) _ _ _ d])
    show "i < length (directory m)" using fi by simp
    show "poolIndex ((directory m ! i)\<lparr>pinCount := pinCount (directory m ! i) + 1\<rparr>)
        = poolIndex (directory m ! i)" by simp
    show "pinned0_upto c k (directory m ! i) \<Longrightarrow>
        pinned0_upto c k ((directory m ! i)\<lparr>pinCount := pinCount (directory m ! i) + 1\<rparr>)"
      using fi assms(3) by (simp add: pinned0_upto_def pinned0_def)
  qed
qed

lemma stuck_pin_page_zero:
  assumes "stuck k c m" and "pin_page m 0 = (r, m')" and "c + 1 < 2 ^ 64"
  shows "stuck k (c + 1) m'"
proof (cases "first_index (\<lambda>entry. page entry = 0) (directory m)")
  case None
  obtain r1 m1 where l: "load_page m 0 = (r1, m1)" by (cases "load_page m 0")
  with None assms(2) have "m' = m1"
    by (cases r1) (simp_all add: pin_page_def Let_def)
  with stuck_load_page [OF assms(1) l] have "stuck k c m'" by simp
  then show ?thesis by (rule stuck_mono) simp
next
  case (Some i)
  note fi = first_index_Some [OF Some]
  let ?e = "(directory m ! i)\<lparr>pinCount := pinCount (directory m ! i) + 1\<rparr>"
  from Some assms(2) have d: "directory m' = (directory m)[i := ?e]"
    by (auto simp: pin_page_def Let_def)
  from assms(1) have s: "stuck k (c + 1) m"
    by (rule stuck_mono) simp
  show ?thesis
  proof (cases "pinned0_upto c k (directory m ! i)")
    case False
    from assms(1) obtain j where j: "j < length (directory m)"
        "pinned0_upto c k (directory m ! j)"
      by (auto simp: stuck_def list_ex_iff in_set_conv_nth)
    with False have "j \<noteq> i" by auto
    with j d have "pinned0_upto (c + 1) k (directory m' ! j)" "j < length (directory m')"
      by (simp_all add: pinned0_upto_def)
    then have "list_ex (pinned0_upto (c + 1) k) (directory m')"
      unfolding list_ex_iff using nth_mem by blast
    moreover have "distinct (map poolIndex (directory m'))"
      using assms(1) d by (simp add: stuck_def map_poolIndex_update)
    ultimately show ?thesis by (simp add: stuck_def)
  next
    case True
    then have "unat (pinCount (directory m ! i)) + 1 < 2 ^ 64"
      using assms(3) by (simp add: pinned0_upto_def)
    then have u: "unat (pinCount (directory m ! i) + 1) = Suc (unat (pinCount (directory m ! i)))"
      by (rule unat_add_one)
    then have "pinCount (directory m ! i) + 1 \<noteq> 0"
      by (metis Zero_not_Suc unat_0)
    with True u have e: "pinned0_upto (c + 1) k ?e"
      by (simp add: pinned0_upto_def pinned0_def)
    have "?e \<in> set (directory m')"
      using fi d by (simp add: set_update_memI)
    with e have "list_ex (pinned0_upto (c + 1) k) (directory m')"
      unfolding list_ex_iff by blast
    moreover have "distinct (map poolIndex (directory m'))"
      using assms(1) d by (simp add: stuck_def map_poolIndex_update)
    ultimately show ?thesis by (simp add: stuck_def)
  qed
qed

lemma stuck_new_pinned_page:
  assumes "stuck k c m" and "new_pinned_page m = (r, m')"
  shows "stuck k c m'"
proof (cases "make_dir_entry m")
  case (Pair r1 m1)
  show ?thesis
  proof (cases r1)
    case (Inl e)
    with Pair assms(2) have "m' = m1" by (simp add: new_pinned_page_def)
    with stuck_make_dir_entry [OF assms(1) Pair] show ?thesis by simp
  next
    case (Inr i)
    with Pair have h: "make_dir_entry m = (Inr i, m1)" by simp
    note f = make_dir_entry_Inr [OF h]
    obtain r2 m2 where al: "call_alloc_page m1 = (r2, m2)" by (cases "call_alloc_page m1")
    note g = call_alloc_page_fields [OF al]
    show ?thesis
    proof (cases r2)
      case (Inl e)
      with assms(2) h al have "m' = m2"
        by (simp add: new_pinned_page_def Let_def)
      with g stuck_make_dir_entry [OF assms(1) h] show ?thesis
        by (simp add: stuck_def)
    next
      case (Inr pid)
      define m3 where "m3 = m2\<lparr>directory := (directory m2)[i := (directory m2 ! i)\<lparr>page := pid, pinCount := 1, dirty := True\<rparr>]\<rparr>"
      have d3: "directory m3 = (directory m)[i := (directory m ! i)\<lparr>dirty := False, pinCount := 1, page := pid, pinCount := 1, dirty := True\<rparr>]"
        using f g by (simp add: m3_def)
      have s3: "stuck k c m3"
      proof (rule stuck_update [OF assms(1) _ _ _ d3])
        show "i < length (directory m)" using f by simp
        show "poolIndex ((directory m ! i)\<lparr>dirty := False, pinCount := 1, page := pid, pinCount := 1, dirty := True\<rparr>)
            = poolIndex (directory m ! i)" by simp
        show "pinned0_upto c k (directory m ! i) \<Longrightarrow>
            pinned0_upto c k ((directory m ! i)\<lparr>dirty := False, pinCount := 1, page := pid, pinCount := 1, dirty := True\<rparr>)"
          using f by (simp add: pinned0_upto_def pinned0_def)
      qed
      from assms(2) h al Inr have "directory m' = rotate_to_end i (directory m3)"
        by (auto simp: new_pinned_page_def Let_def m3_def set_frame_def)
      from stuck_rotate [OF s3 this] show ?thesis .
    qed
  qed
qed

lemma stuck_unpin_page:
  assumes "stuck k c m" and "pg \<noteq> 0"
  shows "stuck k c (unpin_page m pg d)"
proof (cases "first_index (\<lambda>entry. page entry = pg) (directory m)")
  case None
  with assms(1) show ?thesis by (simp add: unpin_page_def)
next
  case (Some i)
  note fi = first_index_Some [OF Some]
  define e' where "e' = (let entry = directory m ! i;
       entry1 = (if d then entry\<lparr>dirty := True\<rparr> else entry)
     in if pinCount entry1 \<noteq> 0 then entry1\<lparr>pinCount := pinCount entry1 - 1\<rparr> else entry1)"
  from Some have d: "directory (unpin_page m pg d) = (directory m)[i := e']"
    by (simp add: unpin_page_def e'_def Let_def)
  show ?thesis
  proof (rule stuck_update [OF assms(1) _ _ _ d])
    show "i < length (directory m)" using fi by simp
    show "poolIndex e' = poolIndex (directory m ! i)" by (simp add: e'_def Let_def)
    show "pinned0_upto c k (directory m ! i) \<Longrightarrow> pinned0_upto c k e'"
      using fi assms(2) by (simp add: pinned0_upto_def pinned0_def)
  qed
qed

lemma stuck_release:
  assumes "stuck k c m"
  shows "stuck k c (release m h)"
  using assms by (simp add: release_def stuck_unpin_page)

lemma stuck_set_frame: "stuck k c m \<Longrightarrow> stuck k c (set_frame m j buf)"
  by (simp add: stuck_def set_frame_def)

lemma stuck_flush_page:
  assumes "stuck k c m" and "flush_page m pg = (e, m')"
  shows "stuck k c m'"
proof (cases "first_index (\<lambda>entry. page entry = pg \<and> pinCount entry = 0 \<and> dirty entry) (directory m)")
  case None
  with assms show ?thesis by (simp add: flush_page_def)
next
  case (Some i)
  note fi = first_index_Some [OF Some]
  obtain e0 m0 where w: "call_write_page m (directory m ! i) = (e0, m0)"
    by (cases "call_write_page m (directory m ! i)")
  note g = call_write_page_fields [OF w]
  show ?thesis
  proof (cases "e0 = ErrNone")
    case True
    with Some w assms(2) have "m' = m0" by (simp add: flush_page_def Let_def)
    with g assms(1) show ?thesis by (simp add: stuck_def)
  next
    case False
    with Some w assms(2) g
    have d: "directory m' = (directory m)[i := (directory m ! i)\<lparr>dirty := False\<rparr>]"
      by (auto simp: flush_page_def Let_def)
    show ?thesis
    proof (rule stuck_update [OF assms(1) _ _ _ d])
      show "i < length (directory m)" using fi by simp
      show "poolIndex ((directory m ! i)\<lparr>dirty := False\<rparr>) = poolIndex (directory m ! i)" by simp
      show "pinned0_upto c k (directory m ! i) \<Longrightarrow> pinned0_upto c k ((directory m ! i)\<lparr>dirty := False\<rparr>)"
        by (simp add: pinned0_upto_def pinned0_def)
    qed
  qed
qed

lemma flush_entries_fields:
  "flush_entries m es = (e, es', m') \<Longrightarrow>
     map poolIndex es' = map poolIndex es \<and> list_ex (pinned0_upto c k) es' = list_ex (pinned0_upto c k) es"
proof (induction es arbitrary: m e es' m')
  case Nil
  then show ?case by simp
next
  case (Cons x es)
  show ?case
  proof (cases "pinCount x = 0 \<and> dirty x")
    case False
    with Cons.prems obtain e1 es1 m1 where r: "flush_entries m es = (e1, es1, m1)" and "es' = x # es1"
      by (auto split: prod.splits)
    with Cons.IH [OF r] show ?thesis by simp
  next
    case True
    obtain e0 m0 where w: "call_write_page m x = (e0, m0)" by (cases "call_write_page m x")
    show ?thesis
    proof (cases "e0 = ErrNone")
      case False
      with True w Cons.prems have "es' = x # es" by auto
      then show ?thesis by simp
    next
      case e0: True
      with True w Cons.prems obtain e1 es1 m1 where r: "flush_entries m0 es = (e1, es1, m1)"
        and "es' = x\<lparr>dirty := False\<rparr> # es1"
        by (auto split: prod.splits)
      with Cons.IH [OF r] show ?thesis by (simp add: pinned0_upto_def pinned0_def)
    qed
  qed
qed

lemma stuck_flush_free_pages:
  assumes "stuck k c m" and "flush_free_pages m = (e, m')"
  shows "stuck k c m'"
proof -
  obtain es1 m1 where r: "flush_entries m (directory m) = (e, es1, m1)"
    and m': "m' = m1\<lparr>directory := es1\<rparr>"
    using assms(2) by (auto simp: flush_free_pages_def split: prod.splits)
  from flush_entries_fields [OF r, where k = k and c = c] m' assms(1) show ?thesis
    by (simp add: stuck_def)
qed

lemma stuck_add_record_loop:
  assumes "add_record_loop m cur pgid dat recordSize = Some y"
  shows "stuck k c m \<longrightarrow> stuck k c (snd y)"
  using assms
proof (rule add_record_loop.raw_induct
    [where P = "\<lambda>m cur pgid dat recordSize y. stuck k c m \<longrightarrow> stuck k c (snd y)", rotated])
  fix loop :: "'a page_manager \<Rightarrow> pinned_page \<Rightarrow> pid_type \<Rightarrow> byte list \<Rightarrow> size_type
      \<Rightarrow> ((error + record_index) \<times> 'a page_manager) option"
    and m cur pgid dat recordSize y
  assume IH: "\<And>m cur pgid dat recordSize y.
      loop m cur pgid dat recordSize = Some y \<Longrightarrow> stuck k c m \<longrightarrow> stuck k c (snd y)"
  assume hyp: "(let footerStart = unat (p_size cur) - sizeof_footer;
          pageFooter = read_footer (frame m (p_data cur)) footerStart
      in if freeSpace pageFooter < recordSize + of_nat sizeof_size
         then
           (if next_page pageFooter = 0
            then
              (case new_pinned_page m of
                 (Inl e, m1) \<Rightarrow> Some (Inl e, release m1 cur)
               | (Inr newPage, m1) \<Rightarrow>
                   let pageFooter' = pageFooter\<lparr>next_page := p_pageID newPage\<rparr>;
                       m2 = set_frame m1 (p_data cur)
                              (write_footer (frame m1 (p_data cur)) footerStart pageFooter');
                       m3 = release m2 cur
                   in loop m3 newPage (next_page pageFooter') dat recordSize)
            else
              (case pin_page m (next_page pageFooter) of
                 (Inl e, m1) \<Rightarrow> Some (Inl e, release m1 cur)
               | (Inr nextPage, m1) \<Rightarrow>
                   loop (release m1 cur) nextPage (next_page pageFooter) dat
                     recordSize))
         else
           (let (buf, pageFooter', dataStart) =
                  store_record (frame m (p_data cur)) footerStart pageFooter dat recordSize;
                m1 = set_frame m (p_data cur) buf
            in Some (Inr \<lparr>pageid = pgid, slot_index = records pageFooter' - 1,
                          offset = of_nat dataStart, rsize = recordSize\<rparr>,
                     release m1 (mark_dirty cur)))) = Some y"
  show "stuck k c m \<longrightarrow> stuck k c (snd y)"
  proof
  assume st: "stuck k c m"
  define footerStart where "footerStart = unat (p_size cur) - sizeof_footer"
  define pageFooter where "pageFooter = read_footer (frame m (p_data cur)) footerStart"
  note body = hyp [unfolded Let_def, folded footerStart_def, folded pageFooter_def]
  show "stuck k c (snd y)"
  proof (cases "freeSpace pageFooter < recordSize + of_nat sizeof_size")
    case False
    with body have "snd y = release (set_frame m (p_data cur)
        (fst (store_record (frame m (p_data cur)) footerStart pageFooter dat recordSize)))
        (mark_dirty cur)"
      by (auto split: prod.splits)
    with st show ?thesis
      by (simp add: stuck_release stuck_set_frame)
  next
    case full: True
    show ?thesis
    proof (cases "next_page pageFooter = 0")
      case True
      obtain r1 m1 where np: "new_pinned_page m = (r1, m1)" by (cases "new_pinned_page m")
      note s1 = stuck_new_pinned_page [OF st np]
      show ?thesis
      proof (cases r1)
        case (Inl e)
        with body full True np have "snd y = release m1 cur" by auto
        with s1 show ?thesis by (simp add: stuck_release)
      next
        case (Inr newPage)
        define m3 where "m3 = release (set_frame m1 (p_data cur)
           (write_footer (frame m1 (p_data cur)) footerStart
              (pageFooter\<lparr>next_page := p_pageID newPage\<rparr>))) cur"
        from body full True np Inr
        have "loop m3 newPage (p_pageID newPage) dat recordSize = Some y"
          by (simp add: m3_def)
        moreover have "stuck k c m3"
          using s1 by (simp add: m3_def stuck_release stuck_set_frame)
        ultimately show ?thesis using IH by blast
      qed
    next
      case False
      obtain r1 m1 where pp: "pin_page m (next_page pageFooter) = (r1, m1)"
        by (cases "pin_page m (next_page pageFooter)")
      note s1 = stuck_pin_page_other [OF st pp False]
      show ?thesis
      proof (cases r1)
        case (Inl e)
        with body full False pp have "snd y = release m1 cur" by auto
        with s1 show ?thesis by (simp add: stuck_release)
      next
        case (Inr nextPage)
        with body full False pp
        have "loop (release m1 cur) nextPage (next_page pageFooter) dat recordSize = Some y"
          by simp
        moreover have "stuck k c (release m1 cur)"
          using s1 by (simp add: stuck_release)
        ultimately show ?thesis using IH by blast
      qed
    qed
  qed
  qed
qed

lemma stuck_add_record:
  assumes "stuck k c m" and "add_record m pgid dat recordSize = Some (r, m')"
    and "pgid = 0 \<longrightarrow> c + 1 < 2 ^ 64"
  shows "stuck k (if pgid = 0 then c + 1 else c) m'"
proof (cases "page_data_size m - of_nat sizeof_size < recordSize")
  case True
  with assms have "stuck k c m'" by (simp add: add_record_def)
  then show ?thesis by (rule stuck_mono) simp
next
  case False
  obtain r1 m1 where pp: "pin_page m pgid = (r1, m1)" by (cases "pin_page m pgid")
  have s1: "stuck k (if pgid = 0 then c + 1 else c) m1"
  proof (cases "pgid = 0")
    case True
    with pp assms(3) stuck_pin_page_zero [OF assms(1)] show ?thesis by simp
  next
    case False
    with stuck_pin_page_other [OF assms(1) pp] show ?thesis by simp
  qed
  show ?thesis
  proof (cases r1)
    case (Inl e)
    with False pp assms(2) have "m' = m1" by (simp add: add_record_def)
    with s1 show ?thesis by simp
  next
    case (Inr cur)
    with False pp assms(2) have "add_record_loop m1 cur pgid dat recordSize = Some (r, m')"
      by (simp add: add_record_def)
    from stuck_add_record_loop [OF this] s1 show ?thesis by simp
  qed
qed

lemma stuck_perform:
  assumes "stuck k c m" and "perform m x = Some m'"
    and "pins_page_zero x \<longrightarrow> c + 1 < 2 ^ 64"
  shows "stuck k (if pins_page_zero x then c + 1 else c) m'"
proof (cases x)
  case (PinPage pg)
  with assms(2) have p: "pin_page m pg = (fst (pin_page m pg), m')" by auto
  show ?thesis
  proof (cases "pg = 0")
    case True
    with p assms(3) PinPage stuck_pin_page_zero [OF assms(1)] show ?thesis by simp
  next
    case False
    with stuck_pin_page_other [OF assms(1) p] PinPage show ?thesis by simp
  qed
next
  case NewPinnedPage
  with assms(2) have "new_pinned_page m = (fst (new_pinned_page m), m')" by auto
  from stuck_new_pinned_page [OF assms(1) this] NewPinnedPage show ?thesis by simp
next
  case (FlushPage pg)
  with assms(2) have "flush_page m pg = (fst (flush_page m pg), m')" by auto
  from stuck_flush_page [OF assms(1) this] FlushPage show ?thesis by simp
next
  case FlushFreePages
  with assms(2) have "flush_free_pages m = (fst (flush_free_pages m), m')" by auto
  from stuck_flush_free_pages [OF assms(1) this] FlushFreePages show ?thesis by simp
next
  case (Drop h)
  with assms show ?thesis by (auto simp: stuck_release)
next
  case (WriteFrame j buf)
  with assms show ?thesis by (auto simp: stuck_set_frame)
next
  case (AddRecord pg dat recordSize)
  with assms(2) obtain r where a: "add_record m pg dat recordSize = Some (r, m')" by auto
  from assms(3) AddRecord have "pg = 0 \<longrightarrow> c + 1 < 2 ^ 64" by simp
  from stuck_add_record [OF assms(1) a this] AddRecord show ?thesis by simp
qed

lemma stuck_perform_all:
  "stuck k c m \<Longrightarrow> perform_all m xs = Some m' \<Longrightarrow>
   c + length (filter pins_page_zero xs) < 2 ^ 64 \<Longrightarrow>
   stuck k (c + length (filter pins_page_zero xs)) m'"
proof (induction xs arbitrary: m c)
  case Nil
  then show ?case by simp
next
  case (Cons x xs)
  from Cons.prems(2) obtain m1 where p: "perform m x = Some m1" and r: "perform_all m1 xs = Some m'"
    by (auto split: option.splits)
  define c1 where "c1 = (if pins_page_zero x then c + 1 else c)"
  from Cons.prems(3) have "pins_page_zero x \<longrightarrow> c + 1 < 2 ^ 64"
    by (cases "pins_page_zero x") simp_all
  from stuck_perform [OF Cons.prems(1) p this] have s1: "stuck k c1 m1"
    by (simp add: c1_def)
  have eq: "c1 + length (filter pins_page_zero xs) = c + length (filter pins_page_zero (x # xs))"
    by (simp add: c1_def)
  with Cons.prems(3) have "c1 + length (filter pins_page_zero xs) < 2 ^ 64"
    by simp
  from Cons.IH [OF s1 r this] eq show ?case by simp
qed

lemma stuck_not_selected:
  assumes "stuck k c m" and "make_dir_entry m = (Inr j, m')"
  shows "poolIndex (directory m ! j) \<noteq> k"
proof
  assume eq: "poolIndex (directory m ! j) = k"
  note f = make_dir_entry_Inr [OF assms(2)]
  from assms(1) obtain j' where j': "j' < length (directory m)" "pinned0_upto c k (directory m ! j')"
    by (auto simp: stuck_def list_ex_iff in_set_conv_nth)
  from assms(1) have d: "distinct (map poolIndex (directory m))" by (simp add: stuck_def)
  from d have "\<forall>a<length (directory m). \<forall>b<length (directory m).
      a \<noteq> b \<longrightarrow> poolIndex (directory m ! a) \<noteq> poolIndex (directory m ! b)"
    by (simp add: distinct_conv_nth)
  with j' eq f have "j = j'"
    unfolding pinned0_upto_def pinned0_def by blast
  with j'(2) f show False by (simp add: pinned0_upto_def pinned0_def)
qed

lemma pin_page_count_wraps:
  assumes "first_index (\<lambda>entry. page entry = pg) (directory m) = Some i"
    and "pinCount (directory m ! i) = - 1"
  shows "pinCount (directory (snd (pin_page m pg)) ! i) = 0"
  using assms first_index_Some [OF assms(1)] by (simp add: pin_page_def Let_def)

text \<open>
  C10.  When the directory has an entry of page 0 (as every entry of a new manager
  is), \<open>pin_page(0)\<close> finds the first such entry in its scan: it returns a handle
  with id 0 on that entry's frame, adds one to the entry's pin count and calls no
  callback.  The destructor of a handle with id 0 does not unpin, so dropping the
  handle leaves the manager as it is.  After that, whatever the client does (pins,
  allocations, flushes, dropping any handle, writes into frames, \<open>add_record\<close>), the
  directory keeps an entry for that frame with page 0 and a pin count that is not 0,
  and \<open>make_dir_entry\<close> never selects that frame.  The pin count is a \<open>size_t\<close>, and
  \<open>pin_page_count_wraps\<close> above has it return to 0 when it is incremented at
  \<open>SIZE_MAX\<close>; so this holds as long as the count the entry had, this pin and the
  later steps that ask for page 0 (only they can add to the count) are fewer than
  \<open>2^64\<close> together.  Each entry has a frame of its own, as the constructor sets them
  up.
\<close>

theorem pin_page_zero:
  assumes never_used: "first_index (\<lambda>entry. page entry = 0) (directory m) = Some i"
    and frames: "distinct (map poolIndex (directory m))"
  shows "pin_page m 0 =
      (Inr \<lparr>p_pageID = 0, p_data = poolIndex (directory m ! i), p_size = pageSize m,
            p_dirty = False\<rparr>,
       m\<lparr>directory := (directory m)[i := (directory m ! i)
            \<lparr>pinCount := pinCount (directory m ! i) + 1\<rparr>]\<rparr>) \<and>
    calls (snd (pin_page m 0)) = calls m \<and>
    (\<forall>h. p_pageID h = 0 \<longrightarrow> release (snd (pin_page m 0)) h = snd (pin_page m 0)) \<and>
    (\<forall>ops m'. perform_all (snd (pin_page m 0)) ops = Some m' \<and>
         unat (pinCount (directory m ! i)) + 1 + length (filter pins_page_zero ops) < 2 ^ 64 \<longrightarrow>
       list_ex (pinned0 (poolIndex (directory m ! i))) (directory m') \<and>
       (\<forall>j m''. make_dir_entry m' = (Inr j, m'') \<longrightarrow>
          poolIndex (directory m' ! j) \<noteq> poolIndex (directory m ! i)))"
proof -
  let ?k = "poolIndex (directory m ! i)"
  let ?c = "unat (pinCount (directory m ! i))"
  let ?e = "(directory m ! i)\<lparr>pinCount := pinCount (directory m ! i) + 1\<rparr>"
  let ?m1 = "m\<lparr>directory := (directory m)[i := ?e]\<rparr>"
  note fi = first_index_Some [OF never_used]
  have pin: "pin_page m 0 =
      (Inr \<lparr>p_pageID = 0, p_data = ?k, p_size = pageSize m, p_dirty = False\<rparr>, ?m1)"
    using never_used by (simp add: pin_page_def Let_def)
  have st: "stuck ?k (?c + 1) ?m1" if small: "?c + 1 < 2 ^ 64"
  proof -
    from small have u: "unat (pinCount (directory m ! i) + 1) = Suc ?c"
      by (rule unat_add_one)
    then have "pinCount (directory m ! i) + 1 \<noteq> 0"
      by (metis Zero_not_Suc unat_0)
    with u fi have "pinned0_upto (?c + 1) ?k ?e"
      by (simp add: pinned0_upto_def pinned0_def)
    moreover have "?e \<in> set ((directory m)[i := ?e])"
      using fi by (simp add: set_update_memI)
    ultimately have "list_ex (pinned0_upto (?c + 1) ?k) (directory ?m1)"
      unfolding list_ex_iff by auto
    moreover have "distinct (map poolIndex (directory ?m1))"
      using frames by (simp add: map_poolIndex_update)
    ultimately show ?thesis
      by (simp add: stuck_def)
  qed
  have later: "\<forall>ops m'. perform_all ?m1 ops = Some m' \<and>
         ?c + 1 + length (filter pins_page_zero ops) < 2 ^ 64 \<longrightarrow>
       list_ex (pinned0 ?k) (directory m') \<and>
       (\<forall>j m''. make_dir_entry m' = (Inr j, m'') \<longrightarrow> poolIndex (directory m' ! j) \<noteq> ?k)"
  proof (intro allI impI)
    fix ops m'
    assume a: "perform_all ?m1 ops = Some m' \<and>
         ?c + 1 + length (filter pins_page_zero ops) < 2 ^ 64"
    then have "?c + 1 < 2 ^ 64" by simp
    from stuck_perform_all [OF st [OF this]] a
    have s: "stuck ?k (?c + 1 + length (filter pins_page_zero ops)) m'" by simp
    then have "list_ex (pinned0 ?k) (directory m')"
      by (auto simp: stuck_def list_ex_iff pinned0_upto_def)
    moreover have "\<forall>j m''. make_dir_entry m' = (Inr j, m'') \<longrightarrow> poolIndex (directory m' ! j) \<noteq> ?k"
      using stuck_not_selected [OF s] by blast
    ultimately show "list_ex (pinned0 ?k) (directory m') \<and>
       (\<forall>j m''. make_dir_entry m' = (Inr j, m'') \<longrightarrow> poolIndex (directory m' ! j) \<noteq> ?k)"
      by simp
  qed
  have rel: "\<forall>h. p_pageID h = 0 \<longrightarrow> release ?m1 h = ?m1"
    by (simp add: release_def)
  from pin later rel show ?thesis by simp
qed

theorem pin_page_zero_witness:
  "first_index (\<lambda>entry. page entry = 0) (directory (test_manager 2 empty_disk)) = Some 0 \<and>
   distinct (map poolIndex (directory (test_manager 2 empty_disk))) \<and>
   fst (pin_page (test_manager 2 empty_disk) 0)
     = Inr \<lparr>p_pageID = 0, p_data = 0, p_size = 48, p_dirty = False\<rparr> \<and>
   calls (snd (pin_page (test_manager 2 empty_disk) 0)) = [] \<and>
   perform_all (snd (pin_page (test_manager 2 empty_disk) 0)) client_run \<noteq> None \<and>
   unat (pinCount (directory (test_manager 2 empty_disk) ! 0)) + 1
     + length (filter pins_page_zero client_run) = 2 \<and>
   list_ex (pinned0 0)
     (directory (the (perform_all (snd (pin_page (test_manager 2 empty_disk) 0)) client_run)))"
proof -
  let ?m = "test_manager 2 empty_disk"
  have a: "first_index (\<lambda>entry. page entry = 0) (directory ?m) = Some 0"
    by code_simp
  have b: "distinct (map poolIndex (directory ?m))"
    by code_simp
  have c: "perform_all (snd (pin_page ?m 0)) client_run \<noteq> None"
    by code_simp
  then have d: "perform_all (snd (pin_page ?m 0)) client_run
      = Some (the (perform_all (snd (pin_page ?m 0)) client_run))"
    by simp
  have e: "poolIndex (directory ?m ! 0) = 0" "pageSize ?m = 48" "calls ?m = []"
    by code_simp+
  have f: "pinCount (directory ?m ! 0) = 0"
    by code_simp
  have g: "length (filter pins_page_zero client_run) = 1"
    by (simp add: client_run_def)
  from f g have h: "unat (pinCount (directory ?m ! 0)) + 1
      + length (filter pins_page_zero client_run) = 2"
    by simp
  then have lt: "unat (pinCount (directory ?m ! 0)) + 1
      + length (filter pins_page_zero client_run) < 2 ^ 64"
    by simp
  note t = pin_page_zero [OF a b]
  from t e have 1: "fst (pin_page ?m 0)
      = Inr \<lparr>p_pageID = 0, p_data = 0, p_size = 48, p_dirty = False\<rparr>"
    by simp
  from t e have 2: "calls (snd (pin_page ?m 0)) = []"
    by simp
  from d lt have "perform_all (snd (pin_page ?m 0)) client_run
      = Some (the (perform_all (snd (pin_page ?m 0)) client_run)) \<and>
    unat (pinCount (directory ?m ! 0)) + 1
      + length (filter pins_page_zero client_run) < 2 ^ 64"
    by (rule conjI)
  from t [THEN conjunct2, THEN conjunct2, THEN conjunct2, rule_format, OF this]
  have "list_ex (pinned0 (poolIndex (directory ?m ! 0)))
     (directory (the (perform_all (snd (pin_page ?m 0)) client_run)))"
    by (rule conjunct1)
  then have 3: "list_ex (pinned0 0)
     (directory (the (perform_all (snd (pin_page ?m 0)) client_run)))"
    by (simp only: e)
  from a b 1 2 c h 3 show ?thesis
    by (simp only: simp_thms)
qed

subsection \<open>A read that fails while a page is loaded\<close>

text \<open>
  C9 has the entry that a failed read leaves behind out of reach of \<open>make_dir_entry\<close>
  until the manager is destroyed.  It is not, in the run \<open>leak_then_alloc\<close>:
  \<open>pin_page(1)\<close> fails and leaves entry 0 with page 1 and pin count 1; the page
  allocated next gets the id 1 as well, in entry 1; dropping its handle unpins the
  first entry of that id, which is entry 0; its pin count is back at 0, and
  \<open>make_dir_entry\<close> selects it (index 0, frame 0) at its next call.
\<close>

theorem leaked_frame_selected_again:
  "directory (snd (pin_page (test_manager 2 empty_disk) 1)) =
     [\<lparr>dirty = False, page = 1, poolIndex = 0, pinCount = 1\<rparr>,
      \<lparr>dirty = False, page = 0, poolIndex = 1, pinCount = 0\<rparr>] \<and>
   (case leak_then_alloc of
      None \<Rightarrow> False
    | Some (e, h, m) \<Rightarrow>
        e = ErrSome \<and>
        h = \<lparr>p_pageID = 1, p_data = 1, p_size = 48, p_dirty = True\<rparr> \<and>
        directory m =
          [\<lparr>dirty = True, page = 1, poolIndex = 0, pinCount = 0\<rparr>,
           \<lparr>dirty = True, page = 1, poolIndex = 1, pinCount = 1\<rparr>] \<and>
        fst (make_dir_entry m) = Inr 0)"
  by code_simp

text \<open>
  C9, as the code has it.  When \<open>pin_page(id)\<close> misses, an entry is reserved and
  \<open>read_page\<close> returns an error, \<open>pin_page\<close> returns that error, and the reserved
  entry stays in the directory with \<open>page = id\<close> and \<open>pinCount = 1\<close>: it is not reset.
  \<open>make_dir_entry\<close> selects only entries whose pin count is 0, so it does not select
  this entry in the state \<open>pin_page\<close> leaves, nor later while the count is not 0.
\<close>

theorem pin_page_read_error:
  assumes miss: "first_index (\<lambda>entry. page entry = pg) (directory m) = None"
    and reserved: "make_dir_entry m = (Inr i, m1)"
    and failed: "fst (read_page (interface m) pg (frame m1 (poolIndex (directory m ! i)))
                   (pageSize m) (provider m1)) = e"
    and err: "e \<noteq> ErrNone"
  shows "fst (pin_page m pg) = Inl e \<and>
    directory (snd (pin_page m pg))
      = (directory m)[i := (directory m ! i)\<lparr>dirty := False, page := pg, pinCount := 1\<rparr>] \<and>
    calls (snd (pin_page m pg)) = calls m1 @ [ReadPage pg] \<and>
    (\<forall>j m'. make_dir_entry (snd (pin_page m pg)) = (Inr j, m') \<longrightarrow> j \<noteq> i) \<and>
    (\<forall>n j n'. make_dir_entry (n :: 'a page_manager) = (Inr j, n') \<longrightarrow>
       pinCount (directory n ! j) = 0)"
proof -
  note f = make_dir_entry_Inr [OF reserved]
  define m2 where "m2 = m1\<lparr>directory := (directory m1)[i := (directory m1 ! i)\<lparr>page := pg, pinCount := 1\<rparr>]\<rparr>"
  have d2: "directory m2 = (directory m)[i := (directory m ! i)\<lparr>dirty := False, page := pg, pinCount := 1\<rparr>]"
    using f by (simp add: m2_def)
  then have k: "poolIndex (directory m2 ! i) = poolIndex (directory m ! i)"
    using f by simp
  obtain e' m3 where rd: "call_read_page m2 pg (poolIndex (directory m2 ! i)) = (e', m3)"
    by (cases "call_read_page m2 pg (poolIndex (directory m2 ! i))")
  have "frame m2 (poolIndex (directory m ! i)) = frame m1 (poolIndex (directory m ! i))"
    by (simp add: frame_def m2_def)
  with rd failed f k have e': "e' = e"
    by (auto simp: call_read_page_def m2_def Let_def split: prod.splits)
  note g = call_read_page_fields [OF rd]
  from reserved rd e' err have lp: "load_page m pg = (Inl e, m3)"
    by (simp add: load_page_def m2_def Let_def)
  with miss have pp: "pin_page m pg = (Inl e, m3)"
    by (simp add: pin_page_def)
  have sel: "\<forall>n j n'. make_dir_entry (n :: 'a page_manager) = (Inr j, n') \<longrightarrow>
       pinCount (directory n ! j) = 0"
    using make_dir_entry_Inr by blast
  have "directory m3 ! i = (directory m ! i)\<lparr>dirty := False, page := pg, pinCount := 1\<rparr>"
    using g d2 f by simp
  then have "pinCount (directory m3 ! i) \<noteq> 0" by simp
  have "\<forall>j m'. make_dir_entry m3 = (Inr j, m') \<longrightarrow> j \<noteq> i"
  proof (intro allI impI)
    fix j m'
    assume "make_dir_entry m3 = (Inr j, m')"
    from make_dir_entry_Inr [OF this] have "pinCount (directory m3 ! j) = 0" by simp
    with \<open>pinCount (directory m3 ! i) \<noteq> 0\<close> show "j \<noteq> i" by auto
  qed
  moreover have "calls m3 = calls m1 @ [ReadPage pg]"
    using g by (simp add: m2_def)
  ultimately show ?thesis using pp g d2 sel by simp
qed

theorem pin_page_read_error_witness:
  "first_index (\<lambda>entry. page entry = 1) (directory (test_manager 2 empty_disk)) = None \<and>
   fst (make_dir_entry (test_manager 2 empty_disk)) = Inr 0 \<and>
   fst (pin_page (test_manager 2 empty_disk) 1) = Inl ErrSome \<and>
   directory (snd (pin_page (test_manager 2 empty_disk) 1))
     = [\<lparr>dirty = False, page = 1, poolIndex = 0, pinCount = 1\<rparr>,
        \<lparr>dirty = False, page = 0, poolIndex = 1, pinCount = 0\<rparr>] \<and>
   calls (snd (pin_page (test_manager 2 empty_disk) 1)) = [ReadPage 1]"
proof -
  let ?m = "test_manager 2 empty_disk"
  let ?m1 = "snd (make_dir_entry ?m)"
  have a: "first_index (\<lambda>entry. page entry = 1) (directory ?m) = None"
    by code_simp
  have b: "fst (make_dir_entry ?m) = Inr 0"
    by code_simp
  then have b': "make_dir_entry ?m = (Inr 0, ?m1)"
    by (metis prod.collapse)
  have c: "fst (read_page (interface ?m) 1 (frame ?m1 (poolIndex (directory ?m ! 0)))
                   (pageSize ?m) (provider ?m1)) = ErrSome"
    by code_simp
  have d: "(directory ?m)[0 := (directory ?m ! 0)\<lparr>dirty := False, page := 1, pinCount := 1\<rparr>]
     = [\<lparr>dirty = False, page = 1, poolIndex = 0, pinCount = 1\<rparr>,
        \<lparr>dirty = False, page = 0, poolIndex = 1, pinCount = 0\<rparr>]"
    by code_simp
  have e: "calls ?m1 = []"
    by code_simp
  have f: "ErrSome \<noteq> ErrNone"
    by simp
  note t = pin_page_read_error [OF a b' c f]
  from t have 1: "fst (pin_page ?m 1) = Inl ErrSome"
    by (rule conjunct1)
  from t [THEN conjunct2, THEN conjunct1] d have 2: "directory (snd (pin_page ?m 1))
     = [\<lparr>dirty = False, page = 1, poolIndex = 0, pinCount = 1\<rparr>,
        \<lparr>dirty = False, page = 0, poolIndex = 1, pinCount = 0\<rparr>]"
    by (simp only:)
  from t [THEN conjunct2, THEN conjunct2, THEN conjunct1] e have 3: "calls (snd (pin_page ?m 1)) = [ReadPage 1]"
    by (simp only: append_Nil)
  from a b 1 2 3 show ?thesis
    by (simp only: simp_thms)
qed

subsection \<open>The handle of a page that was loaded\<close>

text \<open>
  The handle \<open>pin_page\<close> returns after a miss, in every manager: when the entry
  reserved is not the last of the directory, the loaded entry goes to the end, and the
  handle is on the frame of the entry that stood after it.
\<close>

lemma nth_rotate_to_end:
  assumes "Suc i < length xs"
  shows "rotate_to_end i xs ! i = xs ! Suc i" and "last (rotate_to_end i xs) = xs ! i"
proof -
  from assms have "rotate_to_end i xs = take i xs @ drop (Suc i) xs @ [xs ! i]"
    by (simp add: rotate_to_end_def)
  moreover have "(take i xs @ drop (Suc i) xs @ [xs ! i]) ! i = xs ! Suc i"
    using assms by (simp add: nth_append)
  ultimately show "rotate_to_end i xs ! i = xs ! Suc i" "last (rotate_to_end i xs) = xs ! i"
    by simp_all
qed

lemma pin_page_miss_handle:
  assumes miss: "first_index (\<lambda>entry. page entry = pg) (directory m) = None"
    and reserved: "make_dir_entry m = (Inr i, m1)"
    and ok: "fst (read_page (interface m) pg (frame m1 (poolIndex (directory m ! i)))
                   (pageSize m) (provider m1)) = ErrNone"
    and more: "Suc i < length (directory m)"
  shows "\<exists>h m'. pin_page m pg = (Inr h, m') \<and>
    p_data h = poolIndex (directory m ! Suc i) \<and>
    last (directory m') = (directory m ! i)\<lparr>dirty := False, page := pg, pinCount := 1\<rparr>"
proof -
  note f = make_dir_entry_Inr [OF reserved]
  define m2 where "m2 = m1\<lparr>directory := (directory m1)[i := (directory m1 ! i)\<lparr>page := pg, pinCount := 1\<rparr>]\<rparr>"
  have d2: "directory m2 = (directory m)[i := (directory m ! i)\<lparr>dirty := False, page := pg, pinCount := 1\<rparr>]"
    using f by (simp add: m2_def)
  then have k: "poolIndex (directory m2 ! i) = poolIndex (directory m ! i)"
    using f by simp
  obtain e m3 where rd: "call_read_page m2 pg (poolIndex (directory m2 ! i)) = (e, m3)"
    by (cases "call_read_page m2 pg (poolIndex (directory m2 ! i))")
  have "frame m2 (poolIndex (directory m ! i)) = frame m1 (poolIndex (directory m ! i))"
    by (simp add: frame_def m2_def)
  with rd ok f k have e: "e = ErrNone"
    by (auto simp: call_read_page_def m2_def Let_def split: prod.splits)
  note g = call_read_page_fields [OF rd]
  define m' where "m' = m3\<lparr>directory := rotate_to_end i (directory m3)\<rparr>"
  from reserved rd e have lp: "load_page m pg = (Inr i, m')"
    by (simp add: load_page_def m2_def m'_def Let_def)
  define h where "h = \<lparr>p_pageID = pg, p_data = poolIndex (directory m' ! i), p_size = pageSize m',
      p_dirty = False\<rparr>"
  from miss lp have pp: "pin_page m pg = (Inr h, m')"
    by (simp add: pin_page_def Let_def h_def)
  have len: "Suc i < length (directory m3)"
    using more g d2 by simp
  have "directory m' ! i = directory m3 ! Suc i" "last (directory m') = directory m3 ! i"
    using nth_rotate_to_end [OF len] by (simp_all add: m'_def)
  with g d2 more have "directory m' ! i = directory m ! Suc i"
    "last (directory m') = (directory m ! i)\<lparr>dirty := False, page := pg, pinCount := 1\<rparr>"
    by simp_all
  with pp show ?thesis
    by (simp add: h_def)
qed

subsection \<open>The dirty bit after \<open>flush_page\<close>\<close>

text \<open>
  \<open>flush_page\<close> in every manager: without an unpinned dirty entry of the page it
  returns an error and the manager is as before; with one, it writes that entry's
  frame once, returns what \<open>write_page\<close> returned, and the entry is dirty afterwards
  exactly when the write succeeded.
\<close>

lemma flush_page_no_entry:
  "first_index (\<lambda>entry. page entry = pg \<and> pinCount entry = 0 \<and> dirty entry) (directory m) = None
   \<Longrightarrow> flush_page m pg = (ErrSome, m)"
  by (simp add: flush_page_def)

lemma flush_page_dirty_after:
  assumes "first_index (\<lambda>entry. page entry = pg \<and> pinCount entry = 0 \<and> dirty entry)
      (directory m) = Some i"
  shows "fst (flush_page m pg) = fst (call_write_page m (directory m ! i)) \<and>
    calls (snd (flush_page m pg)) = calls m @ [write_call m (directory m ! i)] \<and>
    dirty (directory (snd (flush_page m pg)) ! i) = (fst (flush_page m pg) = ErrNone)"
proof -
  note fi = first_index_Some [OF assms]
  obtain e m1 where w: "call_write_page m (directory m ! i) = (e, m1)"
    by (cases "call_write_page m (directory m ! i)")
  note g = call_write_page_frame [OF w]
  show ?thesis
  proof (cases "e = ErrNone")
    case True
    with assms w have "flush_page m pg = (ErrNone, m1)"
      by (simp add: flush_page_def Let_def)
    with w g fi True show ?thesis by simp
  next
    case False
    with assms w have "flush_page m pg
        = (e, m1\<lparr>directory := (directory m1)[i := (directory m ! i)\<lparr>dirty := False\<rparr>]\<rparr>)"
      by (simp add: flush_page_def Let_def)
    with w g fi False show ?thesis by simp
  qed
qed

subsection \<open>Bytes of a frame\<close>

lemma length_memcpy [simp]: "length (memcpy dst d src s n) = length dst"
  by (simp add: memcpy_def Let_def)

lemma nth_memcpy:
  assumes "i < length dst"
  shows "memcpy dst d src s n ! i =
    (if d \<le> i \<and> i < d + length (take n (drop s src)) then take n (drop s src) ! (i - d)
     else dst ! i)"
proof -
  define bs where "bs = take n (drop s src)"
  have "memcpy dst d src s n ! i = (take d dst @ bs @ drop (d + length bs) dst) ! i"
    using assms by (simp only: memcpy_def Let_def nth_take bs_def)
  also have "\<dots> = (if d \<le> i \<and> i < d + length bs then bs ! (i - d) else dst ! i)"
  proof (cases "i < d")
    case True
    with assms show ?thesis by (simp add: nth_append)
  next
    case False
    then have di: "d \<le> i" by simp
    with assms have ld: "length (take d dst) = d" by simp
    show ?thesis
    proof (cases "i < d + length bs")
      case True
      with di ld show ?thesis by (auto simp: nth_append)
    next
      case False
      with di have "length bs \<le> i - d" by simp
      with di ld assms have "(take d dst @ bs @ drop (d + length bs) dst) ! i
          = drop (d + length bs) dst ! (i - d - length bs)"
        by (auto simp: nth_append)
      also from False di assms have "\<dots> = dst ! i"
        by simp
      finally show ?thesis using False by simp
    qed
  qed
  finally show ?thesis by (simp only: bs_def)
qed

lemma take_drop_cong:
  assumes "length xs = length ys" and "\<And>i. off \<le> i \<Longrightarrow> i < off + k \<Longrightarrow> i < length xs \<Longrightarrow> xs ! i = ys ! i"
  shows "take k (drop off xs) = take k (drop off ys)"
proof (rule nth_equalityI)
  show "length (take k (drop off xs)) = length (take k (drop off ys))"
    using assms(1) by simp
next
  fix i
  assume "i < length (take k (drop off xs))"
  then have "i < k" "off + i < length xs" by auto
  with assms show "take k (drop off xs) ! i = take k (drop off ys) ! i"
    by simp
qed

lemma memcpy_outside:
  assumes "off + k \<le> d \<or> d + n \<le> off"
  shows "take k (drop off (memcpy dst d src s n)) = take k (drop off dst)"
proof (rule take_drop_cong)
  show "length (memcpy dst d src s n) = length dst" by simp
next
  fix i
  assume "off \<le> i" "i < off + k" "i < length (memcpy dst d src s n)"
  with assms show "memcpy dst d src s n ! i = dst ! i"
    by (auto simp: nth_memcpy)
qed

lemma memcpy_inside:
  assumes "d + n \<le> length dst" and "n \<le> length src"
  shows "take n (drop d (memcpy dst d src 0 n)) = take n src"
proof (rule nth_equalityI)
  show "length (take n (drop d (memcpy dst d src 0 n))) = length (take n src)"
    using assms by simp
next
  fix i
  assume "i < length (take n (drop d (memcpy dst d src 0 n)))"
  then have i: "i < n" by simp
  with assms show "take n (drop d (memcpy dst d src 0 n)) ! i = take n src ! i"
    by (simp add: nth_memcpy)
qed

lemma length_size_bytes [simp]: "length (size_bytes w) = 8"
  by (simp add: size_bytes_def)

lemma bytes_size_bit:
  "bit (bytes_size bs) n \<longleftrightarrow> n < 64 \<and> n div 8 < length bs \<and> bit (bs ! (n div 8)) (n mod 8)"
proof (induction bs arbitrary: n)
  case Nil
  then show ?case by simp
next
  case (Cons b bs)
  show ?case
  proof (cases "n < 8")
    case True
    then show ?thesis
      by (auto simp: bit_simps Cons.IH dest: bit_imp_le_length)
  next
    case False
    then have "(n - 8) div 8 = n div 8 - 1" "(n - 8) mod 8 = n mod 8" "0 < n div 8"
      by (simp_all add: le_div_geq le_mod_geq)
    with False show ?thesis
      by (auto simp: bit_simps Cons.IH nth_Cons split: nat.splits dest: bit_imp_le_length)
  qed
qed

lemma bytes_size_size_bytes [simp]: "bytes_size (size_bytes w) = w"
proof (rule bit_word_eqI)
  fix n
  assume "n < LENGTH(64)"
  then have n: "n < 64" by simp
  then have d: "n div 8 < 8" by simp
  have "8 * (n div 8) + n mod 8 = n" by simp
  with n d show "bit (bytes_size (size_bytes w)) n = bit w n"
    by (auto simp: bytes_size_bit size_bytes_def bit_simps)
qed

lemma read_size_memcpy_outside:
  "off + 8 \<le> d \<or> d + n \<le> off \<Longrightarrow> read_size (memcpy buf d src s n) off = read_size buf off"
  by (simp add: read_size_def memcpy_outside)

lemma read_size_write_size_same:
  "off + 8 \<le> length buf \<Longrightarrow> read_size (write_size buf off v) off = v"
  using memcpy_inside [of off 8 buf "size_bytes v"]
  by (simp add: read_size_def write_size_def)

lemma read_size_write_size_other:
  "off' + 8 \<le> off \<or> off + 8 \<le> off' \<Longrightarrow>
     read_size (write_size buf off v) off' = read_size buf off'"
  by (simp add: write_size_def read_size_memcpy_outside)

lemma length_write_size [simp]: "length (write_size buf off v) = length buf"
  by (simp add: write_size_def)

lemma length_footer_bytes [simp]: "length (footer_bytes ft) = 18"
  by (simp add: footer_bytes_def)

lemma length_write_footer [simp]: "length (write_footer buf off ft) = length buf"
  by (simp add: write_footer_def)

lemma read_size_write_footer_other:
  "off' + 8 \<le> off \<Longrightarrow> read_size (write_footer buf off ft) off' = read_size buf off'"
  by (simp add: write_footer_def read_size_memcpy_outside)

lemma read_pid_nth:
  assumes "off < length buf"
  shows "read_pid buf off = buf ! off"
proof (cases "drop off buf")
  case Nil
  with assms show ?thesis by simp
next
  case (Cons b bs)
  with hd_drop_conv_nth [OF assms] have "buf ! off = b" by simp
  with Cons show ?thesis by (simp add: read_pid_def)
qed

lemma read_footer_write_footer:
  assumes "off + 18 \<le> length buf"
  shows "read_footer (write_footer buf off ft) off = ft"
proof -
  let ?X = "write_footer buf off ft"
  have seg: "take 18 (drop off ?X) = footer_bytes ft"
    using memcpy_inside [of off 18 buf "footer_bytes ft"] assms
    by (simp add: write_footer_def sizeof_footer_def)
  have "take 8 (drop off ?X) = take 8 (take 18 (drop off ?X))"
    by (simp add: min_def)
  then have a: "read_size ?X off = records ft"
    by (simp add: read_size_def seg footer_bytes_def)
  have "take 8 (drop (off + 8) ?X) = take 8 (drop 8 (take 18 (drop off ?X)))"
    by (simp add: drop_take add.commute)
  then have b: "read_size ?X (off + 8) = freeSpace ft"
    by (simp add: read_size_def seg footer_bytes_def)
  have c: "read_pid ?X (off + 16) = prev_page ft"
    using assms
    by (simp add: read_pid_nth write_footer_def nth_memcpy sizeof_footer_def footer_bytes_def
        nth_append)
  have d: "read_pid ?X (off + 17) = next_page ft"
    using assms
    by (simp add: read_pid_nth write_footer_def nth_memcpy sizeof_footer_def footer_bytes_def
        nth_append)
  from a b c d show ?thesis
    by (simp add: read_footer_def)
qed

subsection \<open>The footer invariant\<close>

lemma add_to_page_invariant:
  assumes valid: "(of_nat sizeof_footer + of_nat sizeof_size :: size_type) < pgSize"
    and inv: "footer_invariant pgSize buf"
    and add: "add_to_page pgSize buf dat n = Some (buf', off)"
  shows "footer_invariant pgSize buf' \<and>
    stored_sizes buf' (unat pgSize - sizeof_footer)
      = stored_sizes buf (unat pgSize - sizeof_footer) @ [unat n] \<and>
    off = sum_list (stored_sizes buf (unat pgSize - sizeof_footer)) \<and>
    off + unat n + sizeof_size * Suc (length (stored_sizes buf (unat pgSize - sizeof_footer)))
      + sizeof_footer \<le> unat pgSize"
proof -
  define fs where "fs = unat pgSize - 18"
  define ft where "ft = read_footer buf fs"
  define r where "r = unat (records ft)"
  define F where "F = unat (freeSpace ft)"
  define S where "S = sum_list (stored_sizes buf fs)"
  have large: "26 < unat pgSize"
    using valid by (simp add: word_less_nat_alt sizeof_footer_def sizeof_size_def)
  have len: "length buf = unat pgSize" and sum: "F + 18 + 8 * r + S = unat pgSize"
    using inv by (simp_all add: footer_invariant_def Let_def sizeof_footer_def sizeof_size_def
        fs_def ft_def r_def F_def S_def)
  have lt: "unat pgSize < 2 ^ 64"
    using unsigned_less [of pgSize] by simp
  have g0: "unat (pgSize - of_nat sizeof_footer - of_nat sizeof_size) = unat pgSize - 26"
    using large by (simp add: sizeof_footer_def sizeof_size_def unat_sub word_le_nat_alt)
  from add have g1: "\<not> pgSize - of_nat sizeof_footer - of_nat sizeof_size < n"
    and g2: "\<not> freeSpace ft < n + of_nat sizeof_size"
    by (auto simp: add_to_page_def Let_def fs_def ft_def sizeof_footer_def split: if_splits)
  from g1 g0 have n1: "unat n \<le> unat pgSize - 26"
    by (simp add: word_less_nat_alt)
  with large lt have n8: "unat (n + of_nat sizeof_size) = unat n + 8"
    by (simp add: sizeof_size_def unat_word_ariths)
  with g2 have n2: "unat n + 8 \<le> F"
    by (simp add: word_less_nat_alt F_def)
  have r8: "unat (of_nat sizeof_size * records ft) = 8 * r"
    using sum lt by (simp add: sizeof_size_def unat_word_ariths r_def)
  have r1: "unat (records ft + 1) = Suc r"
    using sum lt by (simp add: unat_word_ariths r_def)
  have F': "unat (freeSpace ft - (n + of_nat sizeof_size)) = F - (unat n + 8)"
    using n2 n8 by (simp add: unat_sub word_le_nat_alt F_def)
  then have F'': "unat (freeSpace ft - (n + 8)) = F - (unat n + 8)"
    by (simp add: sizeof_size_def)
  define ft' where "ft' = ft\<lparr>records := records ft + 1,
      freeSpace := freeSpace ft - (n + of_nat sizeof_size)\<rparr>"
  define buf1 where "buf1 = memcpy buf S dat 0 (unat n)"
  define buf2 where "buf2 = write_size buf1 (fs - 8 * r - 8) n"
  have fsum: "fs = F + 8 * r + S" and fs18: "fs + 18 = unat pgSize"
    using sum large by (simp_all add: fs_def)
  have dataStart: "fs - 8 * r - F = S"
    using fsum by simp
  from add have buf': "buf' = write_footer buf2 fs ft'" and off: "off = S"
    using g1 g2 r8 dataStart
    by (auto simp: add_to_page_def Let_def store_record_def sizeof_footer_def fs_def [symmetric]
        ft_def [symmetric] buf1_def buf2_def ft'_def F_def [symmetric] sizeof_size_def
        split: if_splits)
  have len': "length buf' = unat pgSize"
    using len by (simp add: buf' buf2_def buf1_def)
  have rf: "read_footer buf' fs = ft'"
    unfolding buf' using len fs18 by (simp add: read_footer_write_footer buf2_def buf1_def)
  have old: "slot_size buf' fs i = slot_size buf fs i" if "i < r" for i
  proof -
    from that have i: "8 * Suc i \<le> 8 * r" by simp
    with fsum have p: "fs - 8 * Suc i + 8 \<le> fs" "fs - 8 * r \<le> fs - 8 * Suc i"
      by simp_all
    have "slot_size buf' fs i = read_size buf2 (fs - 8 * Suc i)"
      using p by (simp add: slot_size_def sizeof_size_def buf' read_size_write_footer_other)
    also have "\<dots> = read_size buf1 (fs - 8 * Suc i)"
      unfolding buf2_def using p fsum n2
      by (intro read_size_write_size_other) simp
    also have "\<dots> = read_size buf (fs - 8 * Suc i)"
      unfolding buf1_def using p fsum n2
      by (intro read_size_memcpy_outside) simp
    finally show ?thesis by (simp add: slot_size_def sizeof_size_def)
  qed
  have new: "slot_size buf' fs r = n"
  proof -
    have "fs - 8 * Suc r + 8 \<le> fs" "fs - 8 * Suc r = fs - 8 * r - 8"
      using fsum n2 by simp_all
    then have "slot_size buf' fs r = read_size buf2 (fs - 8 * r - 8)"
      by (simp add: slot_size_def sizeof_size_def buf' read_size_write_footer_other)
    also have "\<dots> = n"
      unfolding buf2_def using len fs18 by (intro read_size_write_size_same) (simp add: buf1_def)
    finally show ?thesis .
  qed
  have sizes: "stored_sizes buf' fs = stored_sizes buf fs @ [unat n]"
  proof -
    have "stored_sizes buf' fs = map (\<lambda>i. unat (slot_size buf' fs i)) [0..<Suc r]"
      by (simp add: stored_sizes_def rf ft'_def r1)
    also have "\<dots> = map (\<lambda>i. unat (slot_size buf' fs i)) [0..<r] @ [unat (slot_size buf' fs r)]"
      by simp
    also have "map (\<lambda>i. unat (slot_size buf' fs i)) [0..<r]
        = map (\<lambda>i. unat (slot_size buf fs i)) [0..<r]"
      by (rule map_cong) (simp_all add: old)
    finally have "stored_sizes buf' fs
        = map (\<lambda>i. unat (slot_size buf fs i)) [0..<r] @ [unat n]"
      by (simp add: new)
    then show ?thesis
      by (simp add: stored_sizes_def ft_def r_def)
  qed
  have lenS: "length (stored_sizes buf fs) = r"
    by (simp add: stored_sizes_def ft_def r_def)
  have inv': "footer_invariant pgSize buf'"
    using len' sum n2
    by (simp add: footer_invariant_def Let_def sizeof_footer_def sizeof_size_def
        fs_def [symmetric] rf sizes ft'_def r1 F'' S_def [symmetric])
  have room: "off + unat n + 8 * Suc r + 18 \<le> unat pgSize"
    using off sum n2 by simp
  from inv' sizes off room lenS show ?thesis
    by (simp add: fs_def sizeof_footer_def sizeof_size_def S_def)
qed

lemma length_memset [simp]: "length (memset dst c n) = length dst"
  by (simp add: memset_def)




lemma frame_set_frame:
  "k < length (pool m) \<Longrightarrow> frame (set_frame m k buf) k = buf"
  by (simp add: frame_def set_frame_def)

lemma frame_directory_update [simp]: "frame (m\<lparr>directory := d\<rparr>) k = frame m k"
  by (simp add: frame_def)

lemma pool_unpin_page [simp]: "pool (unpin_page m pg d) = pool m"
  by (simp add: unpin_page_def Let_def split: option.splits)

lemma pool_release [simp]: "pool (release m h) = pool m"
  by (simp add: release_def)

lemma pageSize_unpin_page [simp]: "pageSize (unpin_page m pg d) = pageSize m"
  by (simp add: unpin_page_def Let_def split: option.splits)

lemma pageSize_release [simp]: "pageSize (release m h) = pageSize m"
  by (simp add: release_def)

lemma frame_release [simp]: "frame (release m h) k = frame m k"
  by (simp add: frame_def)

lemma new_pinned_page_frame:
  assumes "new_pinned_page m = (Inr h, m')" and "p_data h < length (pool m)"
  shows "frame m' (p_data h) = init_page (pageSize m) (frame m (p_data h)) \<and>
    pageSize m' = pageSize m \<and> p_size h = pageSize m"
proof -
  obtain r1 m1 where mk: "make_dir_entry m = (r1, m1)" by (cases "make_dir_entry m")
  with assms(1) obtain i where r1: "r1 = Inr i"
    by (cases r1) (auto simp: new_pinned_page_def)
  note f = make_dir_entry_Inr [OF mk [unfolded r1]]
  obtain r2 m2 where al: "call_alloc_page m1 = (r2, m2)" by (cases "call_alloc_page m1")
  note g = call_alloc_page_fields [OF al]
  from assms(1) mk r1 al obtain pid where r2: "r2 = Inr pid"
    by (cases r2) (auto simp: new_pinned_page_def Let_def)
  define k where "k = poolIndex (directory m1 ! i)"
  define m3 where "m3 = m2\<lparr>directory := rotate_to_end i ((directory m2)[i := (directory m2 ! i)
      \<lparr>page := pid, pinCount := 1, dirty := True\<rparr>])\<rparr>"
  from assms(1) mk r1 al r2
  have h: "h = mark_dirty \<lparr>p_pageID = pid, p_data = k, p_size = pageSize m2, p_dirty = False\<rparr>"
    and m': "m' = set_frame m3 k (init_page (pageSize m3) (frame m3 k))"
    by (auto simp: new_pinned_page_def Let_def k_def m3_def set_frame_def)
  have p3: "pool m3 = pool m" "pageSize m3 = pageSize m"
    using f g by (simp_all add: m3_def)
  then have fr3: "frame m3 k = frame m k"
    by (simp add: frame_def)
  from h have hk: "p_data h = k" "p_size h = pageSize m"
    using f g by (simp_all add: mark_dirty_def)
  with assms(2) p3 fr3 m' show ?thesis
    by (simp add: frame_def set_frame_def)
qed

lemma map_update_same:
  "f e' = f (xs ! i) \<Longrightarrow> map f (xs[i := e']) = map f xs"
  by (cases "i < length xs") (simp_all add: map_update list_update_same_conv list_update_beyond)

lemma first_index_map:
  "first_index (\<lambda>x. P (f x)) xs = first_index P (map f xs)"
  by (induction xs) simp_all

lemma unpin_page_pages:
  "map page (directory (unpin_page m pg d)) = map page (directory m) \<and>
   map poolIndex (directory (unpin_page m pg d)) = map poolIndex (directory m)"
  by (simp add: unpin_page_def Let_def map_update_same split: option.splits)

lemma release_pages:
  "map page (directory (release m h)) = map page (directory m) \<and>
   map poolIndex (directory (release m h)) = map poolIndex (directory m)"
  by (simp add: release_def unpin_page_pages)

lemma add_record_resident:
  assumes hit: "first_index (\<lambda>entry. page entry = pg) (directory m) = Some i"
    and k: "poolIndex (directory m ! i) = k" "k < length (pool m)"
    and add: "add_to_page (pageSize m) (frame m k) dat n = Some (buf', off)"
  shows "\<exists>h m1. add_record m pg dat n = Some (Inr h, m1) \<and>
    pageid h = pg \<and>
    slot_index h = records (read_footer (frame m k) (unat (pageSize m) - sizeof_footer)) \<and>
    offset h = of_nat off \<and> rsize h = n \<and>
    frame m1 k = buf' \<and> pageSize m1 = pageSize m \<and>
    map page (directory m1) = map page (directory m) \<and>
    map poolIndex (directory m1) = map poolIndex (directory m)"
proof -
  define fs where "fs = unat (pageSize m) - sizeof_footer"
  define ft where "ft = read_footer (frame m k) fs"
  define cur where "cur = \<lparr>p_pageID = pg, p_data = k, p_size = pageSize m, p_dirty = False\<rparr>"
  define m0 where "m0 = m\<lparr>directory := (directory m)[i := (directory m ! i)
      \<lparr>pinCount := pinCount (directory m ! i) + 1\<rparr>]\<rparr>"
  obtain b a dataStart where sr: "store_record (frame m k) fs ft dat n = (b, a, dataStart)"
    by (cases "store_record (frame m k) fs ft dat n") auto
  from add sr have g1: "\<not> page_data_size m - of_nat sizeof_size < n"
    and g2: "\<not> freeSpace ft < n + of_nat sizeof_size"
    and b: "b = buf'" and o: "dataStart = off"
    by (auto simp: add_to_page_def Let_def page_data_size_def fs_def ft_def
        split: if_splits)
  from sr have "records a = records ft + 1"
    by (auto simp: store_record_def Let_def)
  then have a: "records a - 1 = records ft"
    by simp
  have pin: "pin_page m pg = (Inr cur, m0)"
    using hit k by (simp add: pin_page_def Let_def cur_def m0_def)
  have fr: "frame m0 (p_data cur) = frame m k" "p_size cur = pageSize m"
    by (simp_all add: m0_def cur_def)
  define m1 where "m1 = release (set_frame m0 k buf') (mark_dirty cur)"
  define h where "h = \<lparr>pageid = pg, slot_index = records a - 1, offset = of_nat off, rsize = n\<rparr>"
  have "add_record_loop m0 cur pg dat n = Some (Inr h, m1)"
    using g2 sr b o
    by (subst add_record_loop.simps)
      (simp add: Let_def fr fs_def [symmetric] ft_def [symmetric] m1_def h_def, simp add: cur_def)
  with g1 pin have "add_record m pg dat n = Some (Inr h, m1)"
    by (simp add: add_record_def)
  moreover have "frame m1 k = buf'" "pageSize m1 = pageSize m"
    using k(2) by (simp_all add: m1_def m0_def frame_def set_frame_def)
  moreover have "map page (directory m1) = map page (directory m)"
    "map poolIndex (directory m1) = map poolIndex (directory m)"
    by (simp_all add: m1_def release_pages set_frame_def m0_def map_update_same)
  ultimately show ?thesis
    using a by (auto simp: h_def fs_def ft_def)
qed



subsection \<open>Reading a record back from a page in the pool\<close>

text \<open>
  Where the round trip works: the page is in the pool when \<open>add_record\<close> is called,
  its frame satisfies the footer invariant and has room for the record.  Then the
  record is stored in that frame, pinning the page of the handle finds the same
  frame, and \<open>read_record\<close> copies the first \<open>min(bufferSize, size)\<close> bytes of the
  record into the buffer and leaves the rest of the buffer alone.
\<close>

lemma add_to_page_bytes:
  assumes valid: "(of_nat sizeof_footer + of_nat sizeof_size :: size_type) < pgSize"
    and inv: "footer_invariant pgSize buf"
    and add: "add_to_page pgSize buf dat n = Some (buf', off)"
    and enough: "unat n \<le> length dat"
  shows "take (unat n) (drop off buf') = take (unat n) dat"
proof -
  define fs where "fs = unat pgSize - 18"
  define ft where "ft = read_footer buf fs"
  define r where "r = unat (records ft)"
  have len: "length buf = unat pgSize"
    using inv by (simp add: footer_invariant_def Let_def)
  have "length (stored_sizes buf fs) = r"
    by (simp add: stored_sizes_def ft_def r_def)
  with add_to_page_invariant [OF valid inv add]
  have room: "off + unat n + 8 * Suc r + 18 \<le> unat pgSize"
    by (simp add: fs_def sizeof_footer_def sizeof_size_def)
  have "unat pgSize < 2 ^ 64"
    using unsigned_less [of pgSize] by simp
  with room have r8: "unat (of_nat sizeof_size * records ft) = 8 * r"
    by (simp add: sizeof_size_def unat_word_ariths r_def)
  define buf1 where "buf1 = memcpy buf off dat 0 (unat n)"
  define buf2 where "buf2 = write_size buf1 (fs - 8 * r - 8) n"
  from add r8 have "\<exists>ft'. buf' = write_footer buf2 fs ft'"
    by (auto simp: add_to_page_def Let_def store_record_def sizeof_footer_def fs_def [symmetric]
        ft_def [symmetric] buf1_def buf2_def sizeof_size_def split: if_splits)
  then obtain ft' where buf': "buf' = memcpy buf2 fs (footer_bytes ft') 0 sizeof_footer"
    by (auto simp: write_footer_def)
  from room have a: "off + unat n \<le> fs" "off + unat n \<le> fs - 8 * r - 8"
    by (simp_all add: fs_def)
  have "take (unat n) (drop off buf') = take (unat n) (drop off buf2)"
    unfolding buf' using a by (intro memcpy_outside) simp
  also have "\<dots> = take (unat n) (drop off buf1)"
    unfolding buf2_def write_size_def using a by (intro memcpy_outside) simp
  also have "\<dots> = take (unat n) dat"
    unfolding buf1_def using room len enough by (intro memcpy_inside) simp_all
  finally show ?thesis .
qed

lemma read_record_after_add:
  assumes valid: "(of_nat sizeof_footer + of_nat sizeof_size :: size_type) < pgSize"
    and inv: "footer_invariant pgSize buf"
    and add: "add_to_page pgSize buf dat n = Some (buf', off)"
    and enough: "unat n \<le> length dat"
    and h: "pageid h = p_pageID pg" "offset h = of_nat off" "rsize h = n"
    and out: "unat bufferSize \<le> length out"
  shows "read_record buf' pg h out bufferSize =
    (ErrNone, take (min (unat bufferSize) (unat n)) dat
                @ drop (min (unat bufferSize) (unat n)) out)"
proof -
  define k where "k = min (unat bufferSize) (unat n)"
  have km: "unat (min bufferSize n) = k"
    by (simp add: k_def min_def word_le_nat_alt)
  have "length (stored_sizes buf (unat pgSize - sizeof_footer)) \<ge> 0" by simp
  with add_to_page_invariant [OF valid inv add] have "off \<le> unat pgSize"
    by simp
  moreover have "unat pgSize < 2 ^ 64"
    using unsigned_less [of pgSize] by simp
  ultimately have o: "unat (of_nat off :: size_type) = off"
    by (simp add: unat_of_nat take_bit_nat_eq_self)
  have "take k (drop off buf') = take k (take (unat n) (drop off buf'))"
    by (simp add: k_def min_def)
  also have "\<dots> = take k dat"
    by (simp add: add_to_page_bytes [OF valid inv add enough] k_def min_def)
  finally have bs: "take k (drop off buf') = take k dat" .
  have lk: "length (take k dat) = k" "k \<le> length out"
    using enough out by (simp_all add: k_def)
  then have "memcpy out 0 buf' off k = take k dat @ drop k out"
    by (simp add: memcpy_def Let_def bs)
  with h km o show ?thesis
    by (simp add: read_record_def Let_def k_def)
qed

lemma round_trip_resident:
  assumes hit: "first_index (\<lambda>entry. page entry = pg) (directory m) = Some i"
    and k: "poolIndex (directory m ! i) = k" "k < length (pool m)"
    and valid: "(of_nat sizeof_footer + of_nat sizeof_size :: size_type) < pageSize m"
    and inv: "footer_invariant (pageSize m) (frame m k)"
    and add: "add_to_page (pageSize m) (frame m k) dat n = Some (buf', off)"
    and enough: "unat n \<le> length dat"
    and out: "unat bufferSize \<le> length out"
  shows "\<exists>h m1 p m2. add_record m pg dat n = Some (Inr h, m1) \<and>
    pin_page m1 (pageid h) = (Inr p, m2) \<and>
    read_record (frame m2 (p_data p)) p h out bufferSize =
      (ErrNone, take (min (unat bufferSize) (unat n)) dat
                  @ drop (min (unat bufferSize) (unat n)) out)"
proof -
  from add_record_resident [OF hit k add] obtain h m1 where
    ar: "add_record m pg dat n = Some (Inr h, m1)"
    and h: "pageid h = pg" "offset h = of_nat off" "rsize h = n"
    and fr: "frame m1 k = buf'"
    and pages: "map page (directory m1) = map page (directory m)"
    and frames: "map poolIndex (directory m1) = map poolIndex (directory m)"
    by blast
  note fi = first_index_Some [OF hit]
  from pages have ln: "length (directory m1) = length (directory m)"
    by (metis length_map)
  have hit1: "first_index (\<lambda>entry. page entry = pg) (directory m1) = Some i"
    using hit pages by (simp add: first_index_map [where f = page and P = "\<lambda>x. x = pg"])
  have "poolIndex (directory m1 ! i) = map poolIndex (directory m1) ! i"
    using fi ln by simp
  with frames fi k have k1: "poolIndex (directory m1 ! i) = k"
    by simp
  define p where "p = \<lparr>p_pageID = pg, p_data = k, p_size = pageSize m1, p_dirty = False\<rparr>"
  define m2 where "m2 = m1\<lparr>directory := (directory m1)[i := (directory m1 ! i)
      \<lparr>pinCount := pinCount (directory m1 ! i) + 1\<rparr>]\<rparr>"
  have pin: "pin_page m1 (pageid h) = (Inr p, m2)"
    using hit1 k1 h by (simp add: pin_page_def Let_def p_def m2_def)
  have f2: "frame m2 (p_data p) = buf'"
    using fr by (simp add: m2_def p_def)
  have "pageid h = p_pageID p"
    using h by (simp add: p_def)
  from read_record_after_add [OF valid inv add enough this h(2,3) out] f2
  have "read_record (frame m2 (p_data p)) p h out bufferSize =
      (ErrNone, take (min (unat bufferSize) (unat n)) dat
                  @ drop (min (unat bufferSize) (unat n)) out)"
    by simp
  with ar pin show ?thesis by blast
qed

end
